theory Spec2Isabelle
  imports Complex_Main
begin

section \<open>Python primitives used by the validator\<close>

text \<open>
  Exceptions are values. \<open>ValueError\<close> carries the message of the library call that
  raised it (numpy, math, range, multiprocessing); \<open>FileNotFoundError\<close> carries the path.
  \<open>and_then\<close> runs the rest of a computation unless an exception has left it.
\<close>

datatype error = ValueError string | FileNotFoundError string | ZeroDivisionError

definition and_then :: "error + 'a \<Rightarrow> ('a \<Rightarrow> error + 'b) \<Rightarrow> error + 'b" where
  "and_then m f = (case m of Inl e \<Rightarrow> Inl e | Inr x \<Rightarrow> f x)"

text \<open>The division \<open>a / b\<close> of two numbers, which raises when \<open>b\<close> is zero.\<close>

definition true_div :: "real \<Rightarrow> real \<Rightarrow> error + real" where
  "true_div a b = (if b = 0 then Inl ZeroDivisionError else Inr (a / b))"

text \<open>
  \<open>int(math.sqrt(n))\<close> and \<open>int(np.sqrt(n))\<close> for \<open>n \<ge> 0\<close>: the integer part of the
  square root. The floating-point rounding of \<open>sqrt\<close> is not modelled: the functions
  below use the exact floor.
\<close>

definition isqrt :: "nat \<Rightarrow> nat" where
  "isqrt n = Max (Set.filter (\<lambda>m. m * m \<le> n) {0..n})"

text \<open>
  \<open>range(start, stop, step)\<close> as the list of its elements; \<open>range_list\<close> is the
  sequence for a non-zero step, \<open>py_range\<close> adds the \<open>ValueError\<close> of a zero step.
\<close>

definition range_list :: "int \<Rightarrow> int \<Rightarrow> int \<Rightarrow> int list" where
  "range_list start stop step =
     (if 0 < step
      then map (\<lambda>k. start + int k * step) [0 ..< nat ((stop - start + step - 1) div step)]
      else map (\<lambda>k. start + int k * step) [0 ..< nat ((start - stop - step - 1) div (- step))])"

definition py_range :: "int \<Rightarrow> int \<Rightarrow> int \<Rightarrow> error + int list" where
  "py_range start stop step =
     (if step = 0 then Inl (ValueError ''range() arg 3 must not be zero'')
      else Inr (range_list start stop step))"

text \<open>
  Slice assignments on a numpy boolean array: \<open>xs[lo:hi] = v\<close> and \<open>xs[start::step] = v\<close>
  (\<open>step > 0\<close> at every call site). Indices beyond the array are ignored, as numpy does.
  \<open>np_where\<close> is \<open>np.where(xs)[0]\<close>: the indices holding true, in increasing order.
\<close>

definition assign_range :: "bool list \<Rightarrow> nat \<Rightarrow> nat \<Rightarrow> bool \<Rightarrow> bool list" where
  "assign_range xs lo hi v =
     map (\<lambda>(j, x). if lo \<le> j \<and> j < hi then v else x) (enumerate 0 xs)"

definition assign_stride :: "bool list \<Rightarrow> nat \<Rightarrow> nat \<Rightarrow> bool \<Rightarrow> bool list" where
  "assign_stride xs start step v =
     map (\<lambda>(j, x). if start \<le> j \<and> (j - start) mod step = 0 then v else x) (enumerate 0 xs)"

definition np_where :: "bool list \<Rightarrow> nat list" where
  "np_where xs = filter (\<lambda>j. xs ! j) [0 ..< length xs]"

section \<open>Sieve generator (enhanced\_prime\_validator.py)\<close>

subsection \<open>generate\_known\_primes\_standard\<close>

text \<open>
  One iteration of \<open>for i in range(2, int(np.sqrt(limit)) + 1)\<close>. The read
  \<open>sieve[i]\<close> is in range because \<open>i \<le> isqrt limit \<le> limit\<close>.
\<close>

definition sieve_step :: "bool list \<Rightarrow> nat \<Rightarrow> bool list" where
  "sieve_step sieve i = (if sieve ! i then assign_stride sieve (i * i) i False else sieve)"

definition standard_sieve :: "nat \<Rightarrow> bool list" where
  "standard_sieve limit =
     foldl sieve_step (assign_range (replicate (limit + 1) True) 0 2 False)
       [2 ..< isqrt limit + 1]"

text \<open>
  \<open>np.ones(limit + 1)\<close> raises for a negative size; for \<open>limit = -1\<close> the empty array
  is allocated and \<open>int(np.sqrt(-1))\<close> raises on the NaN.
\<close>

definition generate_known_primes_standard :: "int \<Rightarrow> error + int set" where
  "generate_known_primes_standard limit =
     (if limit + 1 < 0 then Inl (ValueError ''negative dimensions are not allowed'')
      else if limit < 0 then Inl (ValueError ''cannot convert float NaN to integer'')
      else Inr (set (map int (np_where (standard_sieve (nat limit))))))"

subsection \<open>generate\_known\_primes\_bit\_sieve\<close>

text \<open>Index \<open>i\<close> of the array stands for the odd number \<open>2 * i + 1\<close>.\<close>

definition bit_sieve_step :: "bool list \<Rightarrow> nat \<Rightarrow> bool list" where
  "bit_sieve_step sieve i =
     (if sieve ! i
      then (let p = 2 * i + 1; start_idx = (p * p - 1) div 2
            in assign_stride sieve start_idx p False)
      else sieve)"

definition bit_sieve :: "int \<Rightarrow> bool list" where
  "bit_sieve limit =
     (let sieve_size = (limit - 1) div 2
      in foldl bit_sieve_step (replicate (nat (sieve_size + 1)) True)
           [1 ..< isqrt (nat limit) div 2 + 1])"

definition generate_known_primes_bit_sieve :: "int \<Rightarrow> error + int set" where
  "generate_known_primes_bit_sieve limit =
     (if (limit - 1) div 2 + 1 < 0 then Inl (ValueError ''negative dimensions are not allowed'')
      else if limit < 0 then Inl (ValueError ''cannot convert float NaN to integer'')
      else Inr (insert 2
             (set (map (\<lambda>i. 2 * int i + 1) (filter (\<lambda>i. 0 < i) (np_where (bit_sieve limit)))))))"

subsection \<open>generate\_known\_primes\_segmented\<close>

text \<open>
  The inner loops of one segment: for a base prime \<open>p\<close>, clear every multiple of \<open>p\<close>
  from the first one at or after \<open>segment_start\<close>. The writes
  \<open>segment_sieve[i - segment_start]\<close> are in range since
  \<open>segment_start \<le> i \<le> segment_end\<close>.
\<close>

definition mark_multiples :: "int \<Rightarrow> int \<Rightarrow> int \<Rightarrow> bool list \<Rightarrow> bool list" where
  "mark_multiples segment_start segment_end p segment_sieve =
     (let start_idx = (segment_start + p - 1) div p * p;
          start_idx = (if start_idx < segment_start then start_idx + p else start_idx)
      in fold (\<lambda>i s. s[nat (i - segment_start) := False])
           (range_list start_idx (segment_end + 1) p) segment_sieve)"

definition segment_primes :: "int list \<Rightarrow> int \<Rightarrow> int \<Rightarrow> int set" where
  "segment_primes base_primes segment_start segment_end =
     (let segment_size_actual = segment_end - segment_start + 1;
          segment_sieve = replicate (nat segment_size_actual) True;
          segment_sieve = fold (mark_multiples segment_start segment_end) base_primes segment_sieve
      in set (map (\<lambda>i. int i + segment_start) (np_where segment_sieve)))"

text \<open>
  \<open>math.sqrt\<close> raises on a negative argument. The base primes are a Python set; the
  loop \<open>for p in base_primes\<close> is modelled in increasing order (the marks commute).
\<close>

definition generate_known_primes_segmented :: "int \<Rightarrow> int \<Rightarrow> error + int set" where
  "generate_known_primes_segmented limit segment_size =
     (if limit < 0 then Inl (ValueError ''math domain error'')
      else
        let sqrt_limit = int (isqrt (nat limit))
        in case generate_known_primes_standard sqrt_limit of
             Inl e \<Rightarrow> Inl e
           | Inr base_primes \<Rightarrow>
               (case py_range (sqrt_limit + 1) (limit + 1) segment_size of
                  Inl e \<Rightarrow> Inl e
                | Inr segment_starts \<Rightarrow>
                    Inr (fold (\<lambda>segment_start all_primes.
                                 all_primes \<union>
                                 segment_primes (sorted_list_of_set base_primes) segment_start
                                   (min (segment_start + segment_size - 1) limit))
                           segment_starts base_primes)))"

subsection \<open>generate\_known\_primes\<close>

definition generate_known_primes :: "bool \<Rightarrow> int \<Rightarrow> string \<Rightarrow> error + int set" where
  "generate_known_primes low_memory limit method =
     (if method = ''standard'' \<or> (method = ''auto'' \<and> limit \<le> 10000000 \<and> \<not> low_memory)
      then generate_known_primes_standard limit
      else if method = ''bit'' \<or> (method = ''auto'' \<and> limit \<le> 100000000)
      then generate_known_primes_bit_sieve limit
      else generate_known_primes_segmented limit 10000000)"

section \<open>Known-primes import (load\_known\_primes\_from\_file)\<close>












section \<open>Checkpoint store (save\_checkpoint, load\_checkpoint)\<close>

record counters =
  true_positives :: int
  false_positives :: int
  false_negatives :: int

record checkpoint_data = counters +
  last_processed :: int
  timestamp :: string

text \<open>
  The output directory: a file is either a pickle of a checkpoint dictionary, which
  \<open>pickle.load\<close> returns as it was dumped, or something \<open>pickle.load\<close> fails on.
\<close>

datatype stored_file = Pickled checkpoint_data | Unreadable

type_synonym file_system = "string \<rightharpoonup> stored_file"

fun str_nat :: "nat \<Rightarrow> string" where
  "str_nat n =
     (if n < 10 then [char_of (of_char CHR ''0'' + n)]
      else str_nat (n div 10) @ [char_of (of_char CHR ''0'' + n mod 10)])"

declare str_nat.simps [simp del]

definition str_int :: "int \<Rightarrow> string" where
  "str_int i = (if i < 0 then CHR ''-'' # str_nat (nat (- i)) else str_nat (nat i))"

definition path_join :: "string \<Rightarrow> string \<Rightarrow> string" where
  "path_join dir name =
     (if dir = [] then name
      else if last dir = CHR ''/'' then dir @ name
      else dir @ ''/'' @ name)"

definition checkpoint_file :: "string \<Rightarrow> int \<Rightarrow> string" where
  "checkpoint_file output_dir limit =
     path_join output_dir (''checkpoint_'' @ str_int limit @ ''.pkl'')"

definition save_checkpoint ::
  "string \<Rightarrow> checkpoint_data \<Rightarrow> int \<Rightarrow> file_system \<Rightarrow> file_system" where
  "save_checkpoint output_dir data limit fs =
     fs(checkpoint_file output_dir limit \<mapsto> Pickled data)"

definition load_checkpoint :: "string \<Rightarrow> int \<Rightarrow> file_system \<Rightarrow> checkpoint_data option" where
  "load_checkpoint output_dir limit fs =
     (case fs (checkpoint_file output_dir limit) of
        None \<Rightarrow> None
      | Some Unreadable \<Rightarrow> None
      | Some (Pickled data) \<Rightarrow> Some data)"

section \<open>Candidate classifier (PrimeClassifier.is\_prime)\<close>

type_synonym prime_cache = "int \<rightharpoonup> bool"

definition is_prime :: "int \<Rightarrow> prime_cache \<Rightarrow> bool \<times> prime_cache" where
  "is_prime n cache =
     (case cache n of
        Some b \<Rightarrow> (b, cache)
      | None \<Rightarrow>
          if n < 2 then (False, cache(n \<mapsto> False))
          else if n = 2 \<or> n = 3 then (True, cache(n \<mapsto> True))
          else if n mod 2 = 0 then (False, cache(n \<mapsto> False))
          else
            let is_prime = list_all (\<lambda>i. n mod i \<noteq> 0)
                             (range_list 3 (int (isqrt (nat n)) + 1) 2)
            in (is_prime, cache(n \<mapsto> is_prime)))"


section \<open>Validation (validate\_primality\_test and its batch and distributed forms)\<close>

text \<open>
  The validator sees the classifier through \<open>is_prime(n)\<close> alone; here it is a function
  from the number to the answer.
\<close>

type_synonym classifier = "int \<Rightarrow> bool"

record batch_results = counters +
  false_positive_numbers :: "int list"
  false_negative_numbers :: "int list"

text \<open>
  The results dictionary; \<open>results_limit\<close> is its key \<open>"limit"\<close>.
\<close>

record validation_results = batch_results +
  results_limit :: int
  total_known_primes :: int
  precision :: real
  recall :: real
  f1_score :: real
  accuracy :: real

definition no_results :: batch_results where
  "no_results = \<lparr>true_positives = 0, false_positives = 0, false_negatives = 0,
                  false_positive_numbers = [], false_negative_numbers = []\<rparr>"

text \<open>
  The numbers of \<open>range(start, end + 1)\<close> that reach the classifier: an even number
  above 2 takes the \<open>continue\<close>. The loop body calls \<open>is_prime\<close> once for each of them.
\<close>

definition scanned_numbers :: "int \<Rightarrow> int \<Rightarrow> int list" where
  "scanned_numbers start end = filter (\<lambda>n. \<not> (n > 2 \<and> n mod 2 = 0)) [start..end]"

text \<open>
  The loop body after the \<open>continue\<close>; \<open>cap\<close> is the bound on the sample lists
  (100 in a batch, 1000 in the sequential scan).
\<close>

definition update_counters ::
  "classifier \<Rightarrow> int set \<Rightarrow> nat \<Rightarrow> int \<Rightarrow> batch_results \<Rightarrow> batch_results" where
  "update_counters classify known_primes cap n r =
     (let is_prime = classify n;
          is_known_prime = (n \<in> known_primes)
      in if is_prime \<and> is_known_prime then r\<lparr>true_positives := true_positives r + 1\<rparr>
         else if is_prime \<and> \<not> is_known_prime then
           r\<lparr>false_positives := false_positives r + 1,
             false_positive_numbers :=
               (if length (false_positive_numbers r) < cap
                then false_positive_numbers r @ [n] else false_positive_numbers r)\<rparr>
         else if \<not> is_prime \<and> is_known_prime then
           r\<lparr>false_negatives := false_negatives r + 1,
             false_negative_numbers :=
               (if length (false_negative_numbers r) < cap
                then false_negative_numbers r @ [n] else false_negative_numbers r)\<rparr>
         else r)"

definition validate_primality_test_batch ::
  "classifier \<Rightarrow> int \<Rightarrow> int \<Rightarrow> int set \<Rightarrow> batch_results" where
  "validate_primality_test_batch classify start end known_primes =
     fold (update_counters classify known_primes 100) (scanned_numbers start end) no_results"

text \<open>The metrics and the result dictionary, as both validation functions compile them.\<close>

definition compile_results ::
  "int \<Rightarrow> int set \<Rightarrow> int \<Rightarrow> int \<Rightarrow> int \<Rightarrow> int list \<Rightarrow> int list \<Rightarrow>
   error + validation_results" where
  "compile_results limit known_primes tp fp fn fp_numbers fn_numbers =
     (let total = int (card (Set.filter (\<lambda>p. p \<le> limit) known_primes))
      in and_then (if tp + fp > 0 then true_div (real_of_int tp) (real_of_int (tp + fp))
                   else Inr 0) (\<lambda>prec.
         and_then (if tp + fn > 0 then true_div (real_of_int tp) (real_of_int (tp + fn))
                   else Inr 0) (\<lambda>rec.
         and_then (if prec + rec > 0 then true_div (2 * prec * rec) (prec + rec)
                   else Inr 0) (\<lambda>f1.
         and_then (if total > 0 then true_div (real_of_int tp) (real_of_int total)
                   else Inr 0) (\<lambda>acc.
         Inr \<lparr>true_positives = tp, false_positives = fp, false_negatives = fn,
              false_positive_numbers = fp_numbers, false_negative_numbers = fn_numbers,
              results_limit = limit, total_known_primes = total,
              precision = prec, recall = rec, f1_score = f1, accuracy = acc\<rparr>)))))"

text \<open>
  One round of the loop that combines the sample lists of the batches.
\<close>

definition combine_samples :: "batch_results \<Rightarrow> int list \<times> int list \<Rightarrow> int list \<times> int list" where
  "combine_samples result acc =
     (let fp_numbers = fst acc @ take 100 (false_positive_numbers result);
          fn_numbers = snd acc @ take 100 (false_negative_numbers result);
          fp_numbers = (if length fp_numbers \<ge> 1000 then take 1000 fp_numbers else fp_numbers);
          fn_numbers = (if length fn_numbers \<ge> 1000 then take 1000 fn_numbers else fn_numbers)
      in (fp_numbers, fn_numbers))"

text \<open>
  \<open>cpu_count\<close> is \<open>mp.cpu_count()\<close>. \<open>pool.starmap\<close> returns the results of the batches
  in the order of the batches, whatever the number of worker processes; \<open>mp.Pool\<close>
  refuses fewer than one process.
\<close>

definition validate_primality_test_distributed ::
  "classifier \<Rightarrow> int \<Rightarrow> int \<Rightarrow> int set \<Rightarrow> int \<Rightarrow> int option \<Rightarrow> error + validation_results" where
  "validate_primality_test_distributed classify cpu_count limit known_primes batch_size num_processes =
     (let num_processes = (case num_processes of None \<Rightarrow> cpu_count | Some k \<Rightarrow> k)
      in case py_range 2 (limit + 1) batch_size of
           Inl e \<Rightarrow> Inl e
         | Inr batch_starts \<Rightarrow>
             let batches = map (\<lambda>batch_start.
                                  (batch_start, min (batch_start + batch_size - 1) limit))
                             batch_starts
             in if num_processes < 1
                then Inl (ValueError ''Number of processes must be at least 1'')
                else
                  let batch_results =
                        map (\<lambda>(start, end).
                               validate_primality_test_batch classify start end known_primes)
                          batches;
                      tp = sum_list (map true_positives batch_results);
                      fp = sum_list (map false_positives batch_results);
                      fn = sum_list (map false_negatives batch_results);
                      samples = fold combine_samples batch_results ([], [])
                  in compile_results limit known_primes tp fp fn (fst samples) (snd samples))"

text \<open>
  The validator object: its output directory and its low-memory flag. \<open>now\<close> gives the
  time stamp written when the batch ending at a number is checkpointed.
\<close>

record validator =
  output_dir :: string
  low_memory :: bool

text \<open>One round of \<open>for batch_start in range(start, limit + 1, batch_size)\<close>.\<close>

definition process_batch ::
  "validator \<Rightarrow> classifier \<Rightarrow> (int \<Rightarrow> string) \<Rightarrow> int \<Rightarrow> int set \<Rightarrow> bool \<Rightarrow> int \<Rightarrow>
   int \<Rightarrow> batch_results \<times> file_system \<Rightarrow> batch_results \<times> file_system" where
  "process_batch self classify now limit known_primes use_checkpoint batch_size batch_start state =
     (let batch_end = min (batch_start + batch_size - 1) limit;
          r = fold (update_counters classify known_primes 1000)
                (scanned_numbers batch_start batch_end) (fst state);
          fs = (if use_checkpoint
                then save_checkpoint (output_dir self)
                       \<lparr>true_positives = true_positives r,
                        false_positives = false_positives r,
                        false_negatives = false_negatives r,
                        last_processed = batch_end,
                        timestamp = now batch_end\<rparr> limit (snd state)
                else snd state)
      in (r, fs))"

text \<open>
  The parts of \<open>validate_primality_test\<close>, in the order of the source: the ground
  truth (generated when none is given), the state the scan starts from (the checkpoint's
  when one is loaded), and the loop over the batches.
\<close>

definition ground_truth :: "validator \<Rightarrow> int \<Rightarrow> int set option \<Rightarrow> error + int set" where
  "ground_truth self limit known_primes =
     (case known_primes of
        Some given \<Rightarrow> Inr given
      | None \<Rightarrow> if low_memory self
                then generate_known_primes (low_memory self) limit ''segmented''
                else generate_known_primes (low_memory self) limit ''auto'')"

definition start_state ::
  "validator \<Rightarrow> int \<Rightarrow> bool \<Rightarrow> file_system \<Rightarrow> int \<times> batch_results" where
  "start_state self limit use_checkpoint fs =
     (case (if use_checkpoint then load_checkpoint (output_dir self) limit fs else None) of
        Some checkpoint \<Rightarrow>
          (last_processed checkpoint + 1,
           no_results\<lparr>true_positives := true_positives checkpoint,
                      false_positives := false_positives checkpoint,
                      false_negatives := false_negatives checkpoint\<rparr>)
      | None \<Rightarrow> (2, no_results))"

definition scan_batches ::
  "validator \<Rightarrow> classifier \<Rightarrow> (int \<Rightarrow> string) \<Rightarrow> int \<Rightarrow> int set \<Rightarrow> bool \<Rightarrow> int \<Rightarrow>
   int \<Rightarrow> batch_results \<Rightarrow> file_system \<Rightarrow> error + batch_results \<times> file_system" where
  "scan_batches self classify now limit known_primes use_checkpoint batch_size start seed fs =
     (case py_range start (limit + 1) batch_size of
        Inl e \<Rightarrow> Inl e
      | Inr batch_starts \<Rightarrow>
          Inr (fold (process_batch self classify now limit known_primes use_checkpoint batch_size)
                 batch_starts (seed, fs)))"

text \<open>
  The whole of \<open>validate_primality_test\<close>, returning the results and the output
  directory as the run leaves it. The report and the plots written at the end go to
  other files of the directory and are left out.
\<close>

definition validate_primality_test ::
  "validator \<Rightarrow> classifier \<Rightarrow> int \<Rightarrow> (int \<Rightarrow> string) \<Rightarrow> int \<Rightarrow> int set option \<Rightarrow> bool \<Rightarrow>
   int \<Rightarrow> bool \<Rightarrow> file_system \<Rightarrow> error + validation_results \<times> file_system" where
  "validate_primality_test self classify cpu_count now limit known_primes use_checkpoint
     batch_size distributed fs =
     (case ground_truth self limit known_primes of
        Inl e \<Rightarrow> Inl e
      | Inr known_primes \<Rightarrow>
          (if distributed then
             (case validate_primality_test_distributed classify cpu_count limit known_primes
                     batch_size None of
                Inl e \<Rightarrow> Inl e
              | Inr results \<Rightarrow> Inr (results, fs))
           else
             (case scan_batches self classify now limit known_primes use_checkpoint batch_size
                     (fst (start_state self limit use_checkpoint fs))
                     (snd (start_state self limit use_checkpoint fs)) fs of
                Inl e \<Rightarrow> Inl e
              | Inr (r, fs') \<Rightarrow>
                  and_then (compile_results limit known_primes (true_positives r)
                              (false_positives r) (false_negatives r)
                              (false_positive_numbers r) (false_negative_numbers r))
                    (\<lambda>results. Inr (results, fs')))))"

section \<open>Primality, as the specification words it\<close>

definition prime_number :: "int \<Rightarrow> bool" where
  "prime_number n = (2 \<le> n \<and> (\<forall>d\<in>{2..<n}. \<not> d dvd n))"

definition trial_division :: "int \<Rightarrow> bool" where
  "trial_division n = (2 \<le> n \<and> (\<forall>d\<in>{2..n}. d * d \<le> n \<longrightarrow> \<not> d dvd n))"


section \<open>Invariants used in the proofs\<close>

text \<open>
  The state of the sieve once every \<open>i \<le> m\<close> has been handled: \<open>j\<close> is still marked
  when it is at least 2 and no \<open>d\<close> from 2 to \<open>m\<close> whose square does not exceed \<open>j\<close>
  divides it.
\<close>

definition sieved :: "nat \<Rightarrow> nat \<Rightarrow> bool" where
  "sieved m j = (2 \<le> j \<and> (\<forall>d. 2 \<le> d \<and> d \<le> m \<and> d * d \<le> j \<longrightarrow> \<not> d dvd j))"

text \<open>
  The same for the bit-packed sieve, whose index \<open>j\<close> stands for \<open>2 * j + 1\<close>, once every
  index from 1 to \<open>m\<close> has been handled.
\<close>

definition bit_sieved :: "nat \<Rightarrow> nat \<Rightarrow> bool" where
  "bit_sieved m j =
     (\<forall>i. 1 \<le> i \<and> i \<le> m \<and> (2 * i + 1) * (2 * i + 1) \<le> 2 * j + 1 \<longrightarrow>
          \<not> (2 * i + 1) dvd (2 * j + 1))"


section \<open>The standard sieve returns the primes\<close>

lemma isqrt_set:
  fixes n :: nat
  shows "Set.filter (\<lambda>m. m * m \<le> n) {0..n} \<noteq> {}" "finite (Set.filter (\<lambda>m. m * m \<le> n) {0..n})"
proof -
  have "0 \<in> Set.filter (\<lambda>m. m * m \<le> n) {0..n}" by simp
  then show "Set.filter (\<lambda>m. m * m \<le> n) {0..n} \<noteq> {}" by blast
  show "finite (Set.filter (\<lambda>m. m * m \<le> n) {0..n})" by simp
qed

lemma isqrt_square_le: "isqrt n * isqrt n \<le> n"
proof -
  have "isqrt n \<in> Set.filter (\<lambda>m. m * m \<le> n) {0..n}"
    unfolding isqrt_def by (rule Max_in) (rule isqrt_set)+
  then show ?thesis by simp
qed

lemma le_isqrt: assumes "m * m \<le> n" shows "m \<le> isqrt n"
proof -
  have "m \<le> m * m" by (cases m) simp_all
  with assms have "m \<le> n" by linarith
  with assms have "m \<in> Set.filter (\<lambda>m. m * m \<le> n) {0..n}" by simp
  then have "m \<le> Max (Set.filter (\<lambda>m. m * m \<le> n) {0..n})"
    by (intro Max_ge isqrt_set(2))
  then show ?thesis by (simp only: isqrt_def)
qed

lemma le_isqrt_iff: "m \<le> isqrt n \<longleftrightarrow> m * m \<le> n"
proof
  assume "m \<le> isqrt n"
  then have "m * m \<le> isqrt n * isqrt n" by (simp add: mult_le_mono)
  with isqrt_square_le [of n] show "m * m \<le> n" by linarith
next
  assume "m * m \<le> n"
  then show "m \<le> isqrt n" by (rule le_isqrt)
qed

lemma isqrt_eqI: "m * m \<le> n \<Longrightarrow> n < Suc m * Suc m \<Longrightarrow> isqrt n = m"
proof -
  assume a: "m * m \<le> n" and b: "n < Suc m * Suc m"
  have "\<not> Suc m \<le> isqrt n" using b le_isqrt_iff [of "Suc m" n] by simp
  moreover have "m \<le> isqrt n" using a by (rule le_isqrt)
  ultimately show ?thesis by linarith
qed

lemma length_assign_range [simp]: "length (assign_range xs lo hi v) = length xs"
  by (simp add: assign_range_def)

lemma nth_assign_range:
  "j < length xs \<Longrightarrow> assign_range xs lo hi v ! j = (if lo \<le> j \<and> j < hi then v else xs ! j)"
  by (simp add: assign_range_def nth_enumerate_eq)

lemma length_assign_stride [simp]: "length (assign_stride xs start step v) = length xs"
  by (simp add: assign_stride_def)

lemma nth_assign_stride:
  "j < length xs \<Longrightarrow>
   assign_stride xs start step v ! j = (if start \<le> j \<and> (j - start) mod step = 0 then v else xs ! j)"
  by (simp add: assign_stride_def nth_enumerate_eq)

lemma length_sieve_step [simp]: "length (sieve_step s i) = length s"
  by (simp add: sieve_step_def)

lemma stride_dvd:
  fixes i j :: nat
  assumes "2 \<le> i"
  shows "(i * i \<le> j \<and> (j - i * i) mod i = 0) \<longleftrightarrow> (i * i \<le> j \<and> i dvd j)"
proof (cases "i * i \<le> j")
  case True
  then have "j = (j - i * i) + i * i" by simp
  then have "i dvd j \<longleftrightarrow> i dvd (j - i * i)"
    by (metis dvd_add_left_iff dvd_triv_left)
  then show ?thesis by (simp add: dvd_eq_mod_eq_0)
qed simp

lemma sieved_Suc:
  "sieved (Suc m) j \<longleftrightarrow> sieved m j \<and> \<not> (Suc m * Suc m \<le> j \<and> Suc m dvd j \<and> 1 \<le> m)"
proof -
  have split: "d \<le> Suc m \<longleftrightarrow> d \<le> m \<or> d = Suc m" for d by auto
  show ?thesis
    unfolding sieved_def split
    by (cases "1 \<le> m") (auto simp del: mult_Suc mult_Suc_right)
qed

lemma sieve_step_invariant:
  assumes inv: "\<forall>j<length s. s ! j = sieved m j"
    and m: "1 \<le> m" and i: "Suc m < length s"
  shows "\<forall>j<length s. sieve_step s (Suc m) ! j = sieved (Suc m) j"
proof (intro allI impI)
  fix j assume j: "j < length s"
  let ?i = "Suc m"
  have i2: "2 \<le> ?i" using m by simp
  show "sieve_step s ?i ! j = sieved ?i j"
  proof (cases "s ! ?i")
    case True
    then have "sieve_step s ?i ! j = (if ?i * ?i \<le> j \<and> ?i dvd j then False else s ! j)"
      using j stride_dvd [OF i2, of j] by (simp add: sieve_step_def nth_assign_stride)
    also have "\<dots> = sieved ?i j"
      using inv j m by (auto simp: sieved_Suc)
    finally show ?thesis .
  next
    case False
    then have "\<not> sieved m ?i" using inv i by simp
    then obtain d where d: "2 \<le> d" "d \<le> m" "d * d \<le> ?i" "d dvd ?i"
      using i2 unfolding sieved_def by auto
    have "\<not> sieved m j" if "?i * ?i \<le> j" "?i dvd j"
    proof -
      have "d dvd j" using d(4) that(2) by (rule dvd_trans)
      moreover have "d * d \<le> j"
      proof -
        have "?i \<le> ?i * ?i" by simp
        with d(3) that(1) show ?thesis by linarith
      qed
      ultimately show ?thesis using d(1,2) unfolding sieved_def by blast
    qed
    then have "sieved ?i j = sieved m j" by (auto simp: sieved_Suc)
    with False inv j show ?thesis by (simp add: sieve_step_def)
  qed
qed

lemma sieved_small: "m \<le> 1 \<Longrightarrow> sieved m j = (2 \<le> j)"
  unfolding sieved_def by auto

lemma foldl_sieve_invariant:
  assumes "\<forall>j<length s. s ! j = (2 \<le> j)" and "k < length s"
  shows "length (foldl sieve_step s [2 ..< Suc k]) = length s \<and>
         (\<forall>j<length s. foldl sieve_step s [2 ..< Suc k] ! j = sieved k j)"
  using assms(2)
proof (induction k)
  case 0
  then show ?case using assms(1) by (simp add: sieved_small)
next
  case (Suc k)
  show ?case
  proof (cases "k = 0")
    case True
    then show ?thesis using assms(1) by (simp add: sieved_small)
  next
    case False
    then have k: "1 \<le> k" by simp
    define t where "t = foldl sieve_step s [2 ..< Suc k]"
    have "length t = length s \<and> (\<forall>j<length s. t ! j = sieved k j)"
      unfolding t_def by (rule Suc.IH) (use Suc.prems in linarith)
    then have ih: "length t = length s" "\<forall>j<length t. t ! j = sieved k j"
      by simp_all
    have unfold: "[2 ..< Suc (Suc k)] = [2 ..< Suc k] @ [Suc k]"
      using k by simp
    have step: "foldl sieve_step s [2 ..< Suc (Suc k)] = sieve_step t (Suc k)"
      unfolding t_def by (simp only: unfold foldl_append foldl.simps)
    have "\<forall>j<length t. sieve_step t (Suc k) ! j = sieved (Suc k) j"
      using ih(2) k by (rule sieve_step_invariant) (use ih(1) Suc.prems in simp)
    then show ?thesis unfolding step by (simp add: ih(1))
  qed
qed

lemma isqrt_le_self: "isqrt n \<le> n"
proof -
  have "isqrt n \<le> isqrt n * isqrt n" by (cases "isqrt n") simp_all
  with isqrt_square_le [of n] show ?thesis by linarith
qed

lemma length_standard_sieve [simp]: "length (standard_sieve limit) = limit + 1"
proof -
  let ?s = "assign_range (replicate (limit + 1) True) 0 2 False"
  have "\<forall>j<length ?s. ?s ! j = (2 \<le> j)"
    by (auto simp: nth_assign_range)
  moreover have "isqrt limit < length ?s" using isqrt_le_self [of limit] by simp
  ultimately show ?thesis
    using foldl_sieve_invariant [of ?s "isqrt limit"] by (simp add: standard_sieve_def)
qed

lemma nth_standard_sieve:
  assumes "j \<le> limit"
  shows "standard_sieve limit ! j = sieved (isqrt limit) j"
proof -
  let ?s = "assign_range (replicate (limit + 1) True) 0 2 False"
  have "\<forall>j<length ?s. ?s ! j = (2 \<le> j)"
    by (auto simp: nth_assign_range)
  moreover have "isqrt limit < length ?s" using isqrt_le_self [of limit] by simp
  ultimately show ?thesis
    using foldl_sieve_invariant [of ?s "isqrt limit"] assms by (simp add: standard_sieve_def)
qed

lemma sieved_isqrt:
  assumes "j \<le> limit"
  shows "sieved (isqrt limit) j = (2 \<le> j \<and> (\<forall>d. 2 \<le> d \<and> d * d \<le> j \<longrightarrow> \<not> d dvd j))"
proof -
  have "d \<le> isqrt limit" if "d * d \<le> j" for d
    using that assms by (intro le_isqrt) linarith
  then show ?thesis
    unfolding sieved_def by auto
qed

lemma square_bound_prime_nat:
  fixes n :: nat
  shows "(2 \<le> n \<and> (\<forall>d. 2 \<le> d \<and> d * d \<le> n \<longrightarrow> \<not> d dvd n)) =
         (2 \<le> n \<and> (\<forall>d. 2 \<le> d \<and> d < n \<longrightarrow> \<not> d dvd n))"
proof (intro iffI conjI allI impI)
  fix d
  assume a: "2 \<le> n \<and> (\<forall>d. 2 \<le> d \<and> d < n \<longrightarrow> \<not> d dvd n)" and d: "2 \<le> d \<and> d * d \<le> n"
  have "d < d * d" using d by simp
  with d have "d < n" by linarith
  with a d show "\<not> d dvd n" by blast
next
  fix d
  assume a: "2 \<le> n \<and> (\<forall>d. 2 \<le> d \<and> d * d \<le> n \<longrightarrow> \<not> d dvd n)" and d: "2 \<le> d \<and> d < n"
  show "\<not> d dvd n"
  proof
    assume dvd: "d dvd n"
    then obtain e where e: "n = d * e" by (rule dvdE)
    have e2: "2 \<le> e"
    proof (rule ccontr)
      assume "\<not> 2 \<le> e"
      then have "e = 0 \<or> e = 1" by auto
      then show False using e d a by auto
    qed
    show False
    proof (cases "d \<le> e")
      case True
      then have "d * d \<le> n" unfolding e by simp
      then show False using a d dvd by blast
    next
      case False
      then have "e * e \<le> n" unfolding e by (simp add: mult.commute)
      moreover have "e dvd n" unfolding e by simp
      ultimately show False using a e2 by blast
    qed
  qed
qed simp_all

lemma set_np_where: "set (np_where xs) = {j. j < length xs \<and> xs ! j}"
  by (auto simp: np_where_def)

lemma standard_sieve_primes:
  "set (np_where (standard_sieve limit)) =
     {j. j \<le> limit \<and> 2 \<le> j \<and> (\<forall>d. 2 \<le> d \<and> d < j \<longrightarrow> \<not> d dvd j)}"
proof -
  have "standard_sieve limit ! j = (2 \<le> j \<and> (\<forall>d. 2 \<le> d \<and> d < j \<longrightarrow> \<not> d dvd j))"
    if "j \<le> limit" for j
    using that by (simp only: nth_standard_sieve sieved_isqrt square_bound_prime_nat)
  then show ?thesis
    by (auto simp: set_np_where less_Suc_eq_le)
qed

lemma prime_number_int: "prime_number (int n) = (2 \<le> n \<and> (\<forall>d. 2 \<le> d \<and> d < n \<longrightarrow> \<not> d dvd n))"
proof -
  have "(\<forall>d\<in>{2..<int n}. \<not> d dvd int n) = (\<forall>d. 2 \<le> d \<and> d < n \<longrightarrow> \<not> d dvd n)"
  proof (intro iffI allI impI ballI)
    fix d assume a: "\<forall>d\<in>{2..<int n}. \<not> d dvd int n" and d: "2 \<le> d \<and> d < n"
    then have "int d \<in> {2..<int n}" by simp
    with a have "\<not> int d dvd int n" by blast
    then show "\<not> d dvd n" by simp
  next
    fix d assume a: "\<forall>d. 2 \<le> d \<and> d < n \<longrightarrow> \<not> d dvd n" and d: "d \<in> {2..<int n}"
    then have "2 \<le> nat d \<and> nat d < n" by auto
    with a have "\<not> nat d dvd n" by blast
    moreover have "d = int (nat d)" using d by simp
    ultimately show "\<not> d dvd int n" by (metis int_dvd_int_iff)
  qed
  then show ?thesis by (simp add: prime_number_def)
qed

lemma trial_division_int:
  "trial_division (int n) = (2 \<le> n \<and> (\<forall>d. 2 \<le> d \<and> d * d \<le> n \<longrightarrow> \<not> d dvd n))"
proof -
  have "(\<forall>d\<in>{2..int n}. d * d \<le> int n \<longrightarrow> \<not> d dvd int n) =
        (\<forall>d. 2 \<le> d \<and> d * d \<le> n \<longrightarrow> \<not> d dvd n)"
  proof (intro iffI allI impI ballI)
    fix d assume a: "\<forall>d\<in>{2..int n}. d * d \<le> int n \<longrightarrow> \<not> d dvd int n" and d: "2 \<le> d \<and> d * d \<le> n"
    have "d \<le> d * d" by (cases d) simp_all
    with d have "d \<le> n" by linarith
    with d have "int d \<in> {2..int n}" by simp
    moreover have "int d * int d \<le> int n" using d by (metis of_nat_le_iff of_nat_mult)
    ultimately have "\<not> int d dvd int n" using a by blast
    then show "\<not> d dvd n" by simp
  next
    fix d assume a: "\<forall>d. 2 \<le> d \<and> d * d \<le> n \<longrightarrow> \<not> d dvd n" and d: "d \<in> {2..int n}"
      and dd: "d * d \<le> int n"
    have eq: "d = int (nat d)" using d by simp
    then have "int (nat d * nat d) \<le> int n" using dd by simp
    then have "nat d * nat d \<le> n" by (simp only: of_nat_le_iff)
    moreover have "2 \<le> nat d" using d by simp linarith
    ultimately have "\<not> nat d dvd n" using a by blast
    then show "\<not> d dvd int n" using eq by (metis int_dvd_int_iff)
  qed
  then show ?thesis by (simp add: trial_division_def)
qed

lemma trial_division_prime_number: "trial_division n = prime_number n"
proof (cases "0 \<le> n")
  case True
  then obtain k where "n = int k" by (metis nonneg_int_cases)
  then show ?thesis
    by (simp only: trial_division_int prime_number_int square_bound_prime_nat)
next
  case False
  then show ?thesis by (simp add: trial_division_def prime_number_def)
qed

lemma standard_result:
  assumes "0 \<le> limit"
  shows "generate_known_primes_standard limit = Inr {n. n \<le> limit \<and> prime_number n}"
proof -
  have "int ` {j. j \<le> nat limit \<and> 2 \<le> j \<and> (\<forall>d. 2 \<le> d \<and> d < j \<longrightarrow> \<not> d dvd j)} =
        {n. n \<le> limit \<and> prime_number n}" (is "?L = ?R")
  proof (intro set_eqI iffI)
    fix n assume "n \<in> ?L"
    then obtain j where j: "n = int j" "j \<le> nat limit"
      "2 \<le> j \<and> (\<forall>d. 2 \<le> d \<and> d < j \<longrightarrow> \<not> d dvd j)" by auto
    then show "n \<in> ?R" using assms by (simp add: prime_number_int)
  next
    fix n assume n: "n \<in> ?R"
    then have "2 \<le> n" by (simp add: prime_number_def)
    then have eq: "n = int (nat n)" by simp
    have "prime_number (int (nat n))" using n eq by simp
    then have "2 \<le> nat n \<and> (\<forall>d. 2 \<le> d \<and> d < nat n \<longrightarrow> \<not> d dvd nat n)"
      by (rule iffD1 [OF prime_number_int])
    moreover have "nat n \<le> nat limit" using n by simp linarith
    ultimately have "nat n \<in> {j. j \<le> nat limit \<and> 2 \<le> j \<and> (\<forall>d. 2 \<le> d \<and> d < j \<longrightarrow> \<not> d dvd j)}"
      by blast
    then have "int (nat n) \<in> ?L" by (rule imageI)
    then show "n \<in> ?L" using eq by simp
  qed
  then show ?thesis
    using assms by (simp add: generate_known_primes_standard_def standard_sieve_primes)
qed

text \<open>
  C1. For a limit that is not negative, the standard sieve returns a set, and a number
  between 2 and the limit is in that set exactly when it is prime, which is also exactly
  when no divisor whose square does not exceed it divides it.
\<close>

theorem standard_sieve_correct:
  assumes "0 \<le> limit" and "2 \<le> n" and "n \<le> limit"
  shows "\<exists>known_primes. generate_known_primes_standard limit = Inr known_primes \<and>
           (n \<in> known_primes) = prime_number n \<and>
           (n \<in> known_primes) = trial_division n"
  using assms by (simp add: standard_result trial_division_prime_number)

theorem standard_sieve_correct_witness:
  "generate_known_primes_standard 10 = Inr {2, 3, 5, 7} \<and> prime_number 7 \<and> trial_division 7
   \<and> \<not> prime_number 9 \<and> \<not> trial_division 9"
proof -
  have eval: "generate_known_primes_standard 10 = Inr {2, 3, 5, 7}" by code_simp
  from standard_sieve_correct [of 10 7] standard_sieve_correct [of 10 9] eval
  show ?thesis by simp
qed


section \<open>Checkpoints\<close>

text \<open>
  C5. Loading after a save for the same limit returns the saved record; a second save
  for that limit replaces the first, so the load returns the second record and the
  store is the one a single save of the second record leaves.
\<close>

theorem checkpoint_round_trip:
  "load_checkpoint dir limit (save_checkpoint dir c limit fs) = Some c \<and>
   load_checkpoint dir limit (save_checkpoint dir c2 limit (save_checkpoint dir c1 limit fs)) = Some c2 \<and>
   save_checkpoint dir c2 limit (save_checkpoint dir c1 limit fs) = save_checkpoint dir c2 limit fs"
  by (simp add: load_checkpoint_def save_checkpoint_def)

section \<open>Loading known primes from a file\<close>






section \<open>Batches, counters and metrics\<close>

lemma range_list_rec:
  assumes "0 < step"
  shows "range_list start stop step =
           (if start < stop then start # range_list (start + step) stop step else [])"
proof (cases "start < stop")
  case False
  then have "stop - start + step - 1 < step" by simp
  then have "(stop - start + step - 1) div step \<le> 0"
    using assms by (metis div_pos_pos_trivial nle_le pos_imp_zdiv_nonneg_iff)
  then show ?thesis using assms False by (simp add: range_list_def)
next
  case True
  define n where "n = nat ((stop - (start + step) + step - 1) div step)"
  have "stop - start + step - 1 = (stop - (start + step) + step - 1) + step" by simp
  then have "(stop - start + step - 1) div step = (stop - (start + step) + step - 1) div step + 1"
    using assms by (metis div_add_self2 less_irrefl)
  moreover have "0 \<le> (stop - (start + step) + step - 1) div step"
    using True assms by (simp add: pos_imp_zdiv_nonneg_iff)
  ultimately have cnt: "nat ((stop - start + step - 1) div step) = Suc n"
    unfolding n_def by simp
  have "map (\<lambda>k. start + int k * step) [0..<Suc n] =
        start # map (\<lambda>k. start + step + int k * step) [0..<n]"
    by (simp add: upt_conv_Cons map_Suc_upt [symmetric] algebra_simps del: upt_Suc)
  then show ?thesis using assms True cnt n_def by (simp add: range_list_def)
qed

lemma scanned_numbers_empty: "end < start \<Longrightarrow> scanned_numbers start end = []"
  by (simp add: scanned_numbers_def)

lemma scanned_numbers_split:
  assumes "start \<le> mid" and "mid \<le> end"
  shows "scanned_numbers start end = scanned_numbers start mid @ scanned_numbers (mid + 1) end"
proof -
  have "[start..end] = [start..mid] @ [mid + 1..end]"
    using assms by (rule upto_split2)
  then show ?thesis by (simp add: scanned_numbers_def)
qed

lemma batches_cover:
  assumes "0 < batch_size"
  shows "concat (map (\<lambda>batch_start.
                        scanned_numbers batch_start (min (batch_start + batch_size - 1) limit))
                   (range_list start (limit + 1) batch_size)) =
         scanned_numbers start limit"
proof (induction "nat (limit + 1 - start)" arbitrary: start rule: less_induct)
  case less
  show ?case
  proof (cases "start \<le> limit")
    case False
    then show ?thesis
      using assms by (simp add: range_list_rec [of batch_size start] scanned_numbers_empty)
  next
    case True
    define mid where "mid = min (start + batch_size - 1) limit"
    have mid: "start \<le> mid" "mid \<le> limit" using True assms by (simp_all add: mid_def)
    have rest: "scanned_numbers (mid + 1) limit = scanned_numbers (start + batch_size) limit"
    proof (cases "start + batch_size - 1 \<le> limit")
      case True
      then show ?thesis by (simp add: mid_def)
    next
      case False
      then show ?thesis by (simp add: mid_def scanned_numbers_empty)
    qed
    have "nat (limit + 1 - (start + batch_size)) < nat (limit + 1 - start)"
      using True assms by simp
    then have "concat (map (\<lambda>batch_start.
                        scanned_numbers batch_start (min (batch_start + batch_size - 1) limit))
                   (range_list (start + batch_size) (limit + 1) batch_size)) =
         scanned_numbers (start + batch_size) limit"
      by (rule less)
    moreover have "range_list start (limit + 1) batch_size =
                   start # range_list (start + batch_size) (limit + 1) batch_size"
      using True assms by (simp add: range_list_rec [of batch_size start])
    moreover have "scanned_numbers start limit =
                   scanned_numbers start mid @ scanned_numbers (start + batch_size) limit"
      using scanned_numbers_split [OF mid] rest by simp
    ultimately show ?thesis
      by (simp add: mid_def)
  qed
qed

lemma fold_update_counters:
  "true_positives (fold (update_counters classify known_primes cap) ns r) =
     true_positives r + int (length (filter (\<lambda>n. classify n \<and> n \<in> known_primes) ns)) \<and>
   false_positives (fold (update_counters classify known_primes cap) ns r) =
     false_positives r + int (length (filter (\<lambda>n. classify n \<and> n \<notin> known_primes) ns)) \<and>
   false_negatives (fold (update_counters classify known_primes cap) ns r) =
     false_negatives r + int (length (filter (\<lambda>n. \<not> classify n \<and> n \<in> known_primes) ns))"
  by (induction ns arbitrary: r) (simp_all add: update_counters_def Let_def)

lemma fold_process_batch:
  "fst (fold (process_batch self classify now limit known_primes use_checkpoint batch_size)
          batch_starts (seed, fs)) =
   fold (update_counters classify known_primes 1000)
     (concat (map (\<lambda>batch_start.
                     scanned_numbers batch_start (min (batch_start + batch_size - 1) limit))
                batch_starts)) seed"
  by (induction batch_starts arbitrary: seed fs) (simp_all add: process_batch_def Let_def)

lemma scan_batches_counters:
  assumes "0 < batch_size"
  shows "\<exists>r fs'. scan_batches self classify now limit known_primes use_checkpoint batch_size
                    start seed fs = Inr (r, fs') \<and>
           r = fold (update_counters classify known_primes 1000) (scanned_numbers start limit) seed"
proof -
  obtain r fs' where eq: "fold (process_batch self classify now limit known_primes use_checkpoint batch_size)
          (range_list start (limit + 1) batch_size) (seed, fs) = (r, fs')"
    by (cases "fold (process_batch self classify now limit known_primes use_checkpoint batch_size)
          (range_list start (limit + 1) batch_size) (seed, fs)")
  have "r = fold (update_counters classify known_primes 1000) (scanned_numbers start limit) seed"
    using fold_process_batch [of self classify now limit known_primes use_checkpoint batch_size
        "range_list start (limit + 1) batch_size" seed fs] eq
    by (simp add: batches_cover [OF assms])
  then show ?thesis using assms eq by (simp add: scan_batches_def py_range_def)
qed

lemma batch_sums:
  "sum_list (map true_positives
      (map (\<lambda>(start, end). validate_primality_test_batch classify start end known_primes)
         (map (\<lambda>batch_start. (batch_start, min (batch_start + batch_size - 1) limit)) batch_starts))) =
   int (length (filter (\<lambda>n. classify n \<and> n \<in> known_primes)
      (concat (map (\<lambda>batch_start.
                     scanned_numbers batch_start (min (batch_start + batch_size - 1) limit))
                batch_starts)))) \<and>
   sum_list (map false_positives
      (map (\<lambda>(start, end). validate_primality_test_batch classify start end known_primes)
         (map (\<lambda>batch_start. (batch_start, min (batch_start + batch_size - 1) limit)) batch_starts))) =
   int (length (filter (\<lambda>n. classify n \<and> n \<notin> known_primes)
      (concat (map (\<lambda>batch_start.
                     scanned_numbers batch_start (min (batch_start + batch_size - 1) limit))
                batch_starts)))) \<and>
   sum_list (map false_negatives
      (map (\<lambda>(start, end). validate_primality_test_batch classify start end known_primes)
         (map (\<lambda>batch_start. (batch_start, min (batch_start + batch_size - 1) limit)) batch_starts))) =
   int (length (filter (\<lambda>n. \<not> classify n \<and> n \<in> known_primes)
      (concat (map (\<lambda>batch_start.
                     scanned_numbers batch_start (min (batch_start + batch_size - 1) limit))
                batch_starts))))"
  by (induction batch_starts)
     (simp_all add: validate_primality_test_batch_def fold_update_counters no_results_def)



lemma compile_results_no_zero_division:
  "compile_results limit known_primes tp fp fn fp_numbers fn_numbers \<noteq> Inl ZeroDivisionError"
  by (simp add: compile_results_def and_then_def true_div_def Let_def)

lemma compile_results_counters:
  "\<exists>r. compile_results limit known_primes tp fp fn fp_numbers fn_numbers = Inr r \<and>
         true_positives r = tp \<and> false_positives r = fp \<and> false_negatives r = fn"
  by (simp add: compile_results_def and_then_def true_div_def Let_def)


lemma sequential_counters:
  assumes "0 < batch_size"
  shows "\<exists>r fs'.
     validate_primality_test self classify cpu_count now limit (Some known_primes) use_checkpoint
       batch_size False fs = Inr (r, fs') \<and>
     true_positives r =
       true_positives (snd (start_state self limit use_checkpoint fs)) +
       int (length (filter (\<lambda>n. classify n \<and> n \<in> known_primes)
         (scanned_numbers (fst (start_state self limit use_checkpoint fs)) limit))) \<and>
     false_positives r =
       false_positives (snd (start_state self limit use_checkpoint fs)) +
       int (length (filter (\<lambda>n. classify n \<and> n \<notin> known_primes)
         (scanned_numbers (fst (start_state self limit use_checkpoint fs)) limit))) \<and>
     false_negatives r =
       false_negatives (snd (start_state self limit use_checkpoint fs)) +
       int (length (filter (\<lambda>n. \<not> classify n \<and> n \<in> known_primes)
         (scanned_numbers (fst (start_state self limit use_checkpoint fs)) limit)))"
proof -
  define start where "start = fst (start_state self limit use_checkpoint fs)"
  define seed where "seed = snd (start_state self limit use_checkpoint fs)"
  obtain b fs' where scan: "scan_batches self classify now limit known_primes use_checkpoint
      batch_size start seed fs = Inr (b, fs')"
    and b: "b = fold (update_counters classify known_primes 1000) (scanned_numbers start limit) seed"
    using scan_batches_counters [OF assms] by blast
  obtain r where r: "compile_results limit known_primes (true_positives b) (false_positives b)
      (false_negatives b) (false_positive_numbers b) (false_negative_numbers b) = Inr r"
    and c: "true_positives r = true_positives b" "false_positives r = false_positives b"
      "false_negatives r = false_negatives b"
    using compile_results_counters by blast
  have "validate_primality_test self classify cpu_count now limit (Some known_primes) use_checkpoint
       batch_size False fs = Inr (r, fs')"
    using scan r
    by (simp add: validate_primality_test_def ground_truth_def and_then_def start_def seed_def)
  then show ?thesis
    using c b fold_update_counters [of classify known_primes 1000 "scanned_numbers start limit" seed]
    by (simp add: start_def seed_def)
qed

lemma distributed_counters:
  assumes "0 < batch_size"
    and "1 \<le> (case num_processes of None \<Rightarrow> cpu_count | Some k \<Rightarrow> k)"
  shows "\<exists>r.
     validate_primality_test_distributed classify cpu_count limit known_primes batch_size
       num_processes = Inr r \<and>
     true_positives r =
       int (length (filter (\<lambda>n. classify n \<and> n \<in> known_primes) (scanned_numbers 2 limit))) \<and>
     false_positives r =
       int (length (filter (\<lambda>n. classify n \<and> n \<notin> known_primes) (scanned_numbers 2 limit))) \<and>
     false_negatives r =
       int (length (filter (\<lambda>n. \<not> classify n \<and> n \<in> known_primes) (scanned_numbers 2 limit)))"
proof -
  define batch_results where "batch_results =
     map (\<lambda>(start, end). validate_primality_test_batch classify start end known_primes)
       (map (\<lambda>batch_start. (batch_start, min (batch_start + batch_size - 1) limit))
          (range_list 2 (limit + 1) batch_size))"
  define samples where "samples = fold combine_samples batch_results ([], [])"
  obtain r where r: "compile_results limit known_primes
      (sum_list (map true_positives batch_results)) (sum_list (map false_positives batch_results))
      (sum_list (map false_negatives batch_results)) (fst samples) (snd samples) = Inr r"
    and c: "true_positives r = sum_list (map true_positives batch_results)"
      "false_positives r = sum_list (map false_positives batch_results)"
      "false_negatives r = sum_list (map false_negatives batch_results)"
    using compile_results_counters by blast
  have "validate_primality_test_distributed classify cpu_count limit known_primes batch_size
       num_processes = Inr r"
    using assms r
    by (simp add: validate_primality_test_distributed_def py_range_def Let_def
        batch_results_def samples_def)
  then show ?thesis
    using c batch_sums [of classify known_primes batch_size limit "range_list 2 (limit + 1) batch_size"]
    by (simp add: batch_results_def batches_cover [OF assms(1)])
qed

lemma start_state_fresh: "start_state self limit False fs = (2, no_results)"
  by (simp add: start_state_def)

text \<open>
  C3. With a batch size of at least 1 and at least one worker process, the distributed
  validation completes and its three counters are those of the sequential scan of
  \<open>[2, limit]\<close> by \<open>validate_primality_test\<close> with the same classifier and ground
  truth, whatever the batch sizes of the two runs and the number of workers.
\<close>

theorem distributed_equals_sequential:
  assumes "2 \<le> limit" and "1 \<le> batch_size" and "1 \<le> batch_size'"
    and "1 \<le> (case num_processes of None \<Rightarrow> cpu_count | Some k \<Rightarrow> k)"
  shows "\<exists>d s fs'.
     validate_primality_test_distributed classify cpu_count limit known_primes batch_size
       num_processes = Inr d \<and>
     validate_primality_test self classify cpu_count now limit (Some known_primes) False
       batch_size' False fs = Inr (s, fs') \<and>
     true_positives d = true_positives s \<and>
     false_positives d = false_positives s \<and>
     false_negatives d = false_negatives s"
proof -
  have b: "0 < batch_size" "0 < batch_size'" using assms by simp_all
  from distributed_counters [OF b(1) assms(4), of classify limit known_primes]
  obtain d where d: "validate_primality_test_distributed classify cpu_count limit known_primes
      batch_size num_processes = Inr d"
    "true_positives d =
       int (length (filter (\<lambda>n. classify n \<and> n \<in> known_primes) (scanned_numbers 2 limit)))"
    "false_positives d =
       int (length (filter (\<lambda>n. classify n \<and> n \<notin> known_primes) (scanned_numbers 2 limit)))"
    "false_negatives d =
       int (length (filter (\<lambda>n. \<not> classify n \<and> n \<in> known_primes) (scanned_numbers 2 limit)))"
    by blast
  from sequential_counters [OF b(2), of self classify cpu_count now limit known_primes False fs]
  obtain s fs' where s: "validate_primality_test self classify cpu_count now limit
      (Some known_primes) False batch_size' False fs = Inr (s, fs')"
    "true_positives s =
       int (length (filter (\<lambda>n. classify n \<and> n \<in> known_primes) (scanned_numbers 2 limit)))"
    "false_positives s =
       int (length (filter (\<lambda>n. classify n \<and> n \<notin> known_primes) (scanned_numbers 2 limit)))"
    "false_negatives s =
       int (length (filter (\<lambda>n. \<not> classify n \<and> n \<in> known_primes) (scanned_numbers 2 limit)))"
    by (auto simp: start_state_fresh no_results_def)
  show ?thesis using d s by simp
qed


theorem distributed_equals_sequential_witness:
  "\<exists>d s fs'.
     validate_primality_test_distributed odd 4 10 {2, 3, 5, 7} 3 (Some 2) = Inr d \<and>
     validate_primality_test \<lparr>output_dir = ''output'', low_memory = False\<rparr> odd 4 str_int 10
       (Some {2, 3, 5, 7}) False 4 False Map.empty = Inr (s, fs') \<and>
     true_positives d = true_positives s \<and>
     false_positives d = false_positives s \<and>
     false_negatives d = false_negatives s \<and>
     true_positives d = 3 \<and> false_positives d = 1 \<and> false_negatives d = 1"
proof -
  have eval: "validate_primality_test_distributed odd 4 10 {2, 3, 5, 7} 3 (Some 2) =
      Inr \<lparr>true_positives = 3, false_positives = 1, false_negatives = 1,
           false_positive_numbers = [9], false_negative_numbers = [2],
           results_limit = 10, total_known_primes = 4,
           precision = 3 / 4, recall = 3 / 4, f1_score = 3 / 4, accuracy = 3 / 4\<rparr>"
    by code_simp
  have "\<exists>d s fs'.
     validate_primality_test_distributed odd 4 10 {2, 3, 5, 7} 3 (Some 2) = Inr d \<and>
     validate_primality_test \<lparr>output_dir = ''output'', low_memory = False\<rparr> odd 4 str_int 10
       (Some {2, 3, 5, 7}) False 4 False Map.empty = Inr (s, fs') \<and>
     true_positives d = true_positives s \<and>
     false_positives d = false_positives s \<and>
     false_negatives d = false_negatives s"
    by (rule distributed_equals_sequential) simp_all
  then show ?thesis using eval by auto
qed





lemma fold_update_counters_nonneg:
  assumes "0 \<le> true_positives r \<and> 0 \<le> false_positives r \<and> 0 \<le> false_negatives r"
  shows "0 \<le> true_positives (fold (update_counters classify known_primes cap) ns r) \<and>
         0 \<le> false_positives (fold (update_counters classify known_primes cap) ns r) \<and>
         0 \<le> false_negatives (fold (update_counters classify known_primes cap) ns r)"
  using assms by (simp add: fold_update_counters)











section \<open>The classifier decides primality\<close>

lemma set_range_list:
  assumes "0 < step"
  shows "set (range_list start stop step) =
           {i. start \<le> i \<and> i < stop \<and> (i - start) mod step = 0}"
proof (induction "nat (stop - start)" arbitrary: start rule: less_induct)
  case less
  show ?case
  proof (cases "start < stop")
    case False
    then show ?thesis using assms by (simp add: range_list_rec [of step start])
  next
    case True
    have "nat (stop - (start + step)) < nat (stop - start)" using True assms by simp
    then have ih: "set (range_list (start + step) stop step) =
        {i. start + step \<le> i \<and> i < stop \<and> (i - (start + step)) mod step = 0}"
      by (rule less)
    have shift: "(i - (start + step)) mod step = (i - start) mod step" for i
    proof -
      have "i - start = (i - (start + step)) + step" by simp
      then show ?thesis by (metis mod_add_self2)
    qed
    have far: "start + step \<le> i" if "start \<le> i" "i \<noteq> start" "(i - start) mod step = 0" for i
    proof -
      have "step dvd (i - start)" using that(3) by (rule iffD1 [OF mod_eq_0_iff_dvd])
      moreover have "0 < i - start" using that by simp
      ultimately have "step \<le> i - start" by (rule zdvd_imp_le)
      then show ?thesis by simp
    qed
    have "{i. start \<le> i \<and> i < stop \<and> (i - start) mod step = 0} =
          insert start {i. start + step \<le> i \<and> i < stop \<and> (i - (start + step)) mod step = 0}"
      unfolding shift using True assms far by auto
    then show ?thesis
      using True assms ih by (simp add: range_list_rec [of step start])
  qed
qed

lemma le_int_isqrt:
  assumes "0 \<le> d" and "0 \<le> n"
  shows "d \<le> int (isqrt (nat n)) \<longleftrightarrow> d * d \<le> n"
proof -
  have "d \<le> int (isqrt (nat n)) \<longleftrightarrow> nat d \<le> isqrt (nat n)" using assms by linarith
  also have "\<dots> \<longleftrightarrow> nat d * nat d \<le> nat n" by (rule le_isqrt_iff)
  also have "\<dots> \<longleftrightarrow> int (nat d * nat d) \<le> int (nat n)" by (simp only: of_nat_le_iff)
  also have "\<dots> \<longleftrightarrow> d * d \<le> n" using assms by simp
  finally show ?thesis .
qed



lemma prime_number_two: "prime_number 2"
  by (simp add: prime_number_def)


lemma prime_number_even: "\<not> prime_number n" if "4 \<le> n" and "n mod 2 = 0"
proof -
  have "2 \<in> {2..<n}" using that by simp
  moreover have "2 dvd n" using that(2) by presburger
  ultimately show ?thesis unfolding prime_number_def by blast
qed






section \<open>The bit-packed sieve from 2 on\<close>

lemma odd_dvd_double:
  fixes p k :: nat
  assumes "odd p"
  shows "p dvd 2 * k \<longleftrightarrow> p dvd k"
proof -
  have "coprime p 2" using assms by simp
  then show ?thesis by (rule coprime_dvd_mult_right_iff)
qed

lemma odd_square_half:
  fixes p :: nat
  assumes "odd p"
  shows "2 * ((p * p - 1) div 2) + 1 = p * p"
  using assms by auto

lemma bit_stride:
  fixes p j :: nat
  assumes "odd p"
  shows "((p * p - 1) div 2 \<le> j \<and> (j - (p * p - 1) div 2) mod p = 0) \<longleftrightarrow>
         (p * p \<le> 2 * j + 1 \<and> p dvd 2 * j + 1)"
proof -
  define h where "h = (p * p - 1) div 2"
  have sq: "p * p = 2 * h + 1" unfolding h_def using odd_square_half [OF assms] by simp
  show ?thesis
  proof (cases "h \<le> j")
    case False
    then show ?thesis unfolding h_def [symmetric] sq by simp
  next
    case True
    then have "2 * j + 1 = 2 * (j - h) + p * p" unfolding sq by simp
    then have "p dvd 2 * j + 1 \<longleftrightarrow> p dvd 2 * (j - h)"
      by (metis dvd_add_left_iff dvd_triv_left)
    also have "\<dots> \<longleftrightarrow> p dvd (j - h)" using assms by (rule odd_dvd_double)
    finally have "p dvd 2 * j + 1 \<longleftrightarrow> (j - h) mod p = 0" by (simp only: mod_eq_0_iff_dvd)
    moreover have "p * p \<le> 2 * j + 1" using True unfolding sq by simp
    ultimately show ?thesis using True unfolding h_def [symmetric] by simp
  qed
qed

lemma length_bit_sieve_step [simp]: "length (bit_sieve_step s i) = length s"
  by (simp add: bit_sieve_step_def Let_def)

lemma bit_sieved_Suc:
  "bit_sieved (Suc m) j \<longleftrightarrow>
     bit_sieved m j \<and>
     \<not> ((2 * Suc m + 1) * (2 * Suc m + 1) \<le> 2 * j + 1 \<and> (2 * Suc m + 1) dvd (2 * j + 1))"
proof -
  have split: "i \<le> Suc m \<longleftrightarrow> i \<le> m \<or> i = Suc m" for i by auto
  show ?thesis
    unfolding bit_sieved_def split
    by (auto simp del: mult_Suc mult_Suc_right)
qed

lemma bit_sieve_step_invariant:
  assumes inv: "\<forall>j<length s. s ! j = bit_sieved m j"
    and i: "Suc m < length s"
  shows "\<forall>j<length s. bit_sieve_step s (Suc m) ! j = bit_sieved (Suc m) j"
proof (intro allI impI)
  fix j assume j: "j < length s"
  define p where "p = 2 * Suc m + 1"
  have odd_p: "odd p" unfolding p_def by simp
  show "bit_sieve_step s (Suc m) ! j = bit_sieved (Suc m) j"
  proof (cases "s ! Suc m")
    case True
    then have "bit_sieve_step s (Suc m) ! j =
        (if p * p \<le> 2 * j + 1 \<and> p dvd 2 * j + 1 then False else s ! j)"
      using j bit_stride [OF odd_p, of j]
      by (simp add: bit_sieve_step_def Let_def nth_assign_stride p_def del: mult_Suc mult_Suc_right)
    also have "\<dots> = bit_sieved (Suc m) j"
      using inv j unfolding bit_sieved_Suc p_def by auto
    finally show ?thesis .
  next
    case False
    then have "\<not> bit_sieved m (Suc m)" using inv i by simp
    then obtain d where d: "1 \<le> d" "d \<le> m" "(2 * d + 1) * (2 * d + 1) \<le> p" "(2 * d + 1) dvd p"
      unfolding bit_sieved_def p_def by auto
    have "\<not> bit_sieved m j" if "p * p \<le> 2 * j + 1" "p dvd 2 * j + 1"
    proof -
      have "(2 * d + 1) dvd 2 * j + 1" using d(4) that(2) by (rule dvd_trans)
      moreover have "(2 * d + 1) * (2 * d + 1) \<le> 2 * j + 1"
      proof -
        have "p \<le> p * p" by simp
        with d(3) that(1) show ?thesis by linarith
      qed
      ultimately show ?thesis using d(1,2) unfolding bit_sieved_def by blast
    qed
    then have "bit_sieved (Suc m) j = bit_sieved m j"
      unfolding bit_sieved_Suc p_def by auto
    with False inv j show ?thesis by (simp add: bit_sieve_step_def)
  qed
qed

lemma foldl_bit_sieve_invariant:
  assumes "\<forall>j<length s. s ! j" and "k < length s"
  shows "length (foldl bit_sieve_step s [1 ..< Suc k]) = length s \<and>
         (\<forall>j<length s. foldl bit_sieve_step s [1 ..< Suc k] ! j = bit_sieved k j)"
  using assms(2)
proof (induction k)
  case 0
  then show ?case using assms(1) by (simp add: bit_sieved_def)
next
  case (Suc k)
  define t where "t = foldl bit_sieve_step s [1 ..< Suc k]"
  have "length t = length s \<and> (\<forall>j<length s. t ! j = bit_sieved k j)"
    unfolding t_def by (rule Suc.IH) (use Suc.prems in linarith)
  then have ih: "length t = length s" "\<forall>j<length t. t ! j = bit_sieved k j"
    by simp_all
  have unfold: "[1 ..< Suc (Suc k)] = [1 ..< Suc k] @ [Suc k]" by simp
  have step: "foldl bit_sieve_step s [1 ..< Suc (Suc k)] = bit_sieve_step t (Suc k)"
    unfolding t_def by (simp only: unfold foldl_append foldl.simps)
  have "\<forall>j<length t. bit_sieve_step t (Suc k) ! j = bit_sieved (Suc k) j"
    using ih(2) by (rule bit_sieve_step_invariant) (use ih(1) Suc.prems in simp)
  then show ?case unfolding step by (simp add: ih(1))
qed


lemma isqrt_less_self: "2 \<le> n \<Longrightarrow> isqrt n < n"
proof -
  assume n: "2 \<le> n"
  have "\<not> n * n \<le> n" using n by simp
  then have "\<not> n \<le> isqrt n" using le_isqrt_iff [of n n] by blast
  then show ?thesis by simp
qed

lemma half_bound:
  fixes j L :: nat
  assumes "1 \<le> L"
  shows "j < (L - 1) div 2 + 1 \<longleftrightarrow> 2 * j + 1 \<le> L"
  using assms by presburger

lemma all_replicate_True: "\<forall>j<length (replicate m True). replicate m True ! j"
  by simp

lemma bit_sieved_prime:
  assumes "1 \<le> j" and "2 * j + 1 \<le> L"
  shows "bit_sieved (isqrt L div 2) j =
         (2 \<le> 2 * j + 1 \<and> (\<forall>d. 2 \<le> d \<and> d * d \<le> 2 * j + 1 \<longrightarrow> \<not> d dvd 2 * j + 1))"
proof (intro iffI conjI allI impI)
  fix d
  assume b: "bit_sieved (isqrt L div 2) j" and d: "2 \<le> d \<and> d * d \<le> 2 * j + 1"
  show "\<not> d dvd 2 * j + 1"
  proof
    assume dvd: "d dvd 2 * j + 1"
    have "odd d"
    proof
      assume "even d"
      then have "2 dvd 2 * j + 1" using dvd by (rule dvd_trans)
      then show False by simp
    qed
    then obtain i where i: "d = 2 * i + 1" by (auto elim: oddE)
    have "1 \<le> i" using d i by simp
    moreover have "d * d \<le> L" using d assms(2) by linarith
    then have "d \<le> isqrt L" by (rule le_isqrt)
    then have "i \<le> isqrt L div 2" using i by simp
    ultimately have "\<not> (2 * i + 1) dvd (2 * j + 1)"
      using b d unfolding bit_sieved_def i by blast
    then show False using dvd i by simp
  qed
next
  assume a: "2 \<le> 2 * j + 1 \<and> (\<forall>d. 2 \<le> d \<and> d * d \<le> 2 * j + 1 \<longrightarrow> \<not> d dvd 2 * j + 1)"
  show "bit_sieved (isqrt L div 2) j"
    unfolding bit_sieved_def
  proof (intro allI impI)
    fix i assume i: "1 \<le> i \<and> i \<le> isqrt L div 2 \<and> (2 * i + 1) * (2 * i + 1) \<le> 2 * j + 1"
    then have "2 \<le> 2 * i + 1" by simp
    with a i show "\<not> (2 * i + 1) dvd (2 * j + 1)" by blast
  qed
qed (use assms in simp)

lemma bit_sieve_array:
  assumes "2 \<le> limit"
  shows "length (bit_sieve limit) = (nat limit - 1) div 2 + 1"
    and "\<forall>j<length (bit_sieve limit). bit_sieve limit ! j = bit_sieved (isqrt (nat limit) div 2) j"
proof -
  define L where "L = nat limit"
  define s where "s = replicate ((L - 1) div 2 + 1) True"
  have L: "2 \<le> L" using assms by (simp add: L_def)
  have len: "nat ((limit - 1) div 2 + 1) = (L - 1) div 2 + 1"
    using assms unfolding L_def by (simp add: nat_add_distrib nat_div_distrib nat_diff_distrib)
  have "isqrt L \<le> L - 1" using isqrt_less_self [OF L] by simp
  then have "isqrt L div 2 \<le> (L - 1) div 2" by (rule div_le_mono)
  then have k: "isqrt L div 2 < length s" by (simp add: s_def)
  have all: "\<forall>j<length s. s ! j" unfolding s_def by (rule all_replicate_True)
  have eq: "bit_sieve limit = foldl bit_sieve_step s [1 ..< Suc (isqrt L div 2)]"
    by (simp add: bit_sieve_def Let_def len s_def L_def)
  from foldl_bit_sieve_invariant [OF all k]
  show "length (bit_sieve limit) = (nat limit - 1) div 2 + 1"
    and "\<forall>j<length (bit_sieve limit). bit_sieve limit ! j = bit_sieved (isqrt (nat limit) div 2) j"
    unfolding eq by (simp_all add: s_def L_def)
qed

lemma bit_sieve_result:
  assumes "2 \<le> limit"
  shows "generate_known_primes_bit_sieve limit = Inr {n. n \<le> limit \<and> prime_number n}"
proof -
  define L where "L = nat limit"
  have L: "2 \<le> L" "limit = int L" using assms by (simp_all add: L_def)
  note arr = bit_sieve_array [OF assms, folded L_def]
  have member: "bit_sieve limit ! j = prime_number (2 * int j + 1)"
    if "0 < j" "j < (L - 1) div 2 + 1" for j
  proof -
    have q: "2 * j + 1 \<le> L" using that(2) L(1) half_bound [of L j] by simp
    have "bit_sieve limit ! j = bit_sieved (isqrt L div 2) j"
      using arr that by simp
    also have "\<dots> = prime_number (int (2 * j + 1))"
      using that(1) q
      by (simp only: bit_sieved_prime prime_number_int square_bound_prime_nat One_nat_def Suc_leI)
    finally show ?thesis by (simp add: add.commute)
  qed
  have "insert 2 (set (map (\<lambda>i. 2 * int i + 1) (filter (\<lambda>i. 0 < i) (np_where (bit_sieve limit))))) =
        {n. n \<le> limit \<and> prime_number n}" (is "?A = ?B")
  proof (intro set_eqI iffI)
    fix n assume "n \<in> ?A"
    then consider "n = 2" | j where "n = 2 * int j + 1" "0 < j" "j < (L - 1) div 2 + 1"
      "bit_sieve limit ! j"
      by (auto simp: set_np_where arr(1))
    then show "n \<in> ?B"
    proof cases
      case 1
      then show ?thesis using assms by (simp add: prime_number_two)
    next
      case 2
      have "2 * j + 1 \<le> L" using 2(3) L(1) half_bound [of L j] by simp
      then have "n \<le> limit" unfolding 2(1) L(2) by simp
      then show ?thesis using member [OF 2(2,3)] 2(1,4) by simp
    qed
  next
    fix n assume n: "n \<in> ?B"
    show "n \<in> ?A"
    proof (cases "n = 2")
      case True
      then show ?thesis by simp
    next
      case False
      have n2: "2 \<le> n" using n by (simp add: prime_number_def)
      have "n mod 2 \<noteq> 0"
      proof
        assume "n mod 2 = 0"
        moreover have "4 \<le> n" using n2 False calculation by presburger
        ultimately have "\<not> prime_number n" by (intro prime_number_even)
        then show False using n by simp
      qed
      define j where "j = nat ((n - 1) div 2)"
      have "0 \<le> (n - 1) div 2" using n2 by simp
      then have "int j = (n - 1) div 2" unfolding j_def by simp
      moreover have "n = 2 * ((n - 1) div 2) + 1" using \<open>n mod 2 \<noteq> 0\<close> by presburger
      ultimately have nj: "n = 2 * int j + 1" by simp
      have j0: "0 < j" using n2 False nj by linarith
      have "n \<le> int L" using n L(2) by simp
      then have "2 * j + 1 \<le> L" unfolding nj by linarith
      then have jl: "j < (L - 1) div 2 + 1" using L(1) half_bound [of L j] by simp
      have "bit_sieve limit ! j" using member [OF j0 jl] n nj by simp
      then have "j \<in> set (filter (\<lambda>i. 0 < i) (np_where (bit_sieve limit)))"
        using j0 jl by (simp add: set_np_where arr(1))
      then have "2 * int j + 1 \<in> (\<lambda>i. 2 * int i + 1) ` set (filter (\<lambda>i. 0 < i) (np_where (bit_sieve limit)))"
        by (rule imageI)
      then show ?thesis unfolding nj by simp
    qed
  qed
  then show ?thesis
    using assms by (simp add: generate_known_primes_bit_sieve_def)
qed

section \<open>The segmented sieve\<close>

lemma fold_clear:
  "length (fold (\<lambda>i s. s[f i := False]) xs s) = length s \<and>
   (\<forall>k<length s. fold (\<lambda>i s. s[f i := False]) xs s ! k = (s ! k \<and> k \<notin> f ` set xs))"
proof (induction xs arbitrary: s)
  case Nil
  then show ?case by simp
next
  case (Cons x xs)
  have "length (fold (\<lambda>i s. s[f i := False]) xs (s[f x := False])) = length s \<and>
   (\<forall>k<length s. fold (\<lambda>i s. s[f i := False]) xs (s[f x := False]) ! k =
       ((s[f x := False]) ! k \<and> k \<notin> f ` set xs))"
    using Cons.IH [of "s[f x := False]"] by simp
  moreover have "(s[f x := False]) ! k = (s ! k \<and> k \<noteq> f x)" if "k < length s" for k
    by (cases "f x = k") (use that in simp_all)
  ultimately show ?case by auto
qed

lemma first_multiple:
  fixes a p :: int
  assumes "0 < p"
  shows "a \<le> (a + p - 1) div p * p" and "(a + p - 1) div p * p < a + p"
    and "p dvd (a + p - 1) div p * p"
proof -
  have eq: "(a + p - 1) div p * p = (a + p - 1) - (a + p - 1) mod p"
    by (simp add: minus_mod_eq_div_mult)
  have "0 \<le> (a + p - 1) mod p" "(a + p - 1) mod p < p" using assms by simp_all
  then show "a \<le> (a + p - 1) div p * p" "(a + p - 1) div p * p < a + p"
    unfolding eq by linarith+
  show "p dvd (a + p - 1) div p * p" by simp
qed

lemma multiples_in_segment:
  fixes a e p :: int
  assumes "0 < p"
  shows "set (range_list ((a + p - 1) div p * p) (e + 1) p) = {i. a \<le> i \<and> i \<le> e \<and> p dvd i}"
proof -
  define m where "m = (a + p - 1) div p * p"
  note fm = first_multiple [OF assms, of a, folded m_def]
  have "{i. m \<le> i \<and> i < e + 1 \<and> (i - m) mod p = 0} = {i. a \<le> i \<and> i \<le> e \<and> p dvd i}"
  proof (intro set_eqI iffI)
    fix i assume "i \<in> {i. m \<le> i \<and> i < e + 1 \<and> (i - m) mod p = 0}"
    then have i: "m \<le> i" "i \<le> e" "p dvd (i - m)" by (simp_all add: mod_eq_0_iff_dvd)
    have "p dvd (i - m) + m" using i(3) fm(3) by (rule dvd_add)
    then have "p dvd i" by simp
    then show "i \<in> {i. a \<le> i \<and> i \<le> e \<and> p dvd i}" using i fm(1) by simp
  next
    fix i assume "i \<in> {i. a \<le> i \<and> i \<le> e \<and> p dvd i}"
    then have i: "a \<le> i" "i \<le> e" "p dvd i" by simp_all
    have d: "p dvd (m - i)" using fm(3) i(3) by (rule dvd_diff)
    have "m \<le> i"
    proof (rule ccontr)
      assume "\<not> m \<le> i"
      then have "0 < m - i" by simp
      with d have "p \<le> m - i" by (rule zdvd_imp_le)
      then show False using fm(2) i(1) by linarith
    qed
    moreover have "p dvd (i - m)" using i(3) fm(3) by (rule dvd_diff)
    ultimately show "i \<in> {i. m \<le> i \<and> i < e + 1 \<and> (i - m) mod p = 0}"
      using i(2) by (simp add: mod_eq_0_iff_dvd)
  qed
  then show ?thesis unfolding m_def [symmetric] using assms by (simp only: set_range_list)
qed

lemma mark_multiples_result:
  assumes "0 < p" and "length s = nat (e - a + 1)"
  shows "length (mark_multiples a e p s) = length s \<and>
         (\<forall>k<length s. mark_multiples a e p s ! k = (s ! k \<and> \<not> p dvd (a + int k)))"
proof -
  define m where "m = (a + p - 1) div p * p"
  have nolt: "\<not> m < a" using first_multiple(1) [OF assms(1), of a] unfolding m_def by simp
  have eq: "mark_multiples a e p s =
      fold (\<lambda>i s. s[nat (i - a) := False]) (range_list m (e + 1) p) s"
    using nolt by (simp add: mark_multiples_def Let_def m_def)
  have idx: "k \<in> (\<lambda>i. nat (i - a)) ` set (range_list m (e + 1) p) \<longleftrightarrow> p dvd (a + int k)"
    if "k < length s" for k
  proof
    assume "k \<in> (\<lambda>i. nat (i - a)) ` set (range_list m (e + 1) p)"
    then obtain i where i: "k = nat (i - a)" "a \<le> i" "i \<le> e" "p dvd i"
      unfolding m_def multiples_in_segment [OF assms(1)] by auto
    then have "a + int k = i" by simp
    then show "p dvd (a + int k)" using i(4) by simp
  next
    assume d: "p dvd (a + int k)"
    have "a + int k \<le> e" using that assms(2) by linarith
    then have "a + int k \<in> set (range_list m (e + 1) p)"
      unfolding m_def multiples_in_segment [OF assms(1)] using d by simp
    then have "nat (a + int k - a) \<in> (\<lambda>i. nat (i - a)) ` set (range_list m (e + 1) p)"
      by (rule imageI)
    then show "k \<in> (\<lambda>i. nat (i - a)) ` set (range_list m (e + 1) p)" by simp
  qed
  show ?thesis
    unfolding eq using fold_clear [of "\<lambda>i. nat (i - a)" "range_list m (e + 1) p" s] idx
    by simp
qed

lemma fold_mark_multiples:
  assumes "\<forall>p\<in>set ps. 0 < p" and "length s = nat (e - a + 1)"
  shows "length (fold (mark_multiples a e) ps s) = length s \<and>
         (\<forall>k<length s. fold (mark_multiples a e) ps s ! k =
            (s ! k \<and> (\<forall>p\<in>set ps. \<not> p dvd (a + int k))))"
  using assms
proof (induction ps arbitrary: s)
  case Nil
  then show ?case by simp
next
  case (Cons p ps)
  define t where "t = mark_multiples a e p s"
  have p: "0 < p" using Cons.prems(1) by simp
  have t: "length t = length s" "\<forall>k<length s. t ! k = (s ! k \<and> \<not> p dvd (a + int k))"
    unfolding t_def using mark_multiples_result [OF p Cons.prems(2)] by simp_all
  have "length (fold (mark_multiples a e) ps t) = length t \<and>
         (\<forall>k<length t. fold (mark_multiples a e) ps t ! k =
            (t ! k \<and> (\<forall>p\<in>set ps. \<not> p dvd (a + int k))))"
    by (rule Cons.IH) (use Cons.prems t(1) in simp_all)
  then show ?case using t by (auto simp: t_def [symmetric])
qed

lemma segment_primes_result:
  assumes "\<forall>p\<in>set ps. 0 < p"
  shows "segment_primes ps a e = {n. a \<le> n \<and> n \<le> e \<and> (\<forall>p\<in>set ps. \<not> p dvd n)}"
proof -
  define s where "s = replicate (nat (e - a + 1)) True"
  define t where "t = fold (mark_multiples a e) ps s"
  have len: "length s = nat (e - a + 1)" by (simp add: s_def)
  have t: "length t = nat (e - a + 1)"
    "\<forall>k<nat (e - a + 1). t ! k = (\<forall>p\<in>set ps. \<not> p dvd (a + int k))"
    unfolding t_def using fold_mark_multiples [OF assms len] by (simp_all add: s_def)
  have "set (np_where t) = {k. k < nat (e - a + 1) \<and> t ! k}"
    by (simp add: set_np_where t(1))
  moreover have "segment_primes ps a e = (\<lambda>i. int i + a) ` set (np_where t)"
    by (simp add: segment_primes_def Let_def t_def s_def)
  ultimately have "segment_primes ps a e = (\<lambda>i. int i + a) ` {k. k < nat (e - a + 1) \<and> t ! k}"
    by simp
  also have "\<dots> = {n. a \<le> n \<and> n \<le> e \<and> (\<forall>p\<in>set ps. \<not> p dvd n)}"
  proof (intro set_eqI iffI)
    fix n assume "n \<in> (\<lambda>i. int i + a) ` {k. k < nat (e - a + 1) \<and> t ! k}"
    then obtain k where k: "n = int k + a" "k < nat (e - a + 1)" "t ! k" by auto
    then have "\<forall>p\<in>set ps. \<not> p dvd (a + int k)" using t(2) by simp
    then show "n \<in> {n. a \<le> n \<and> n \<le> e \<and> (\<forall>p\<in>set ps. \<not> p dvd n)}"
      using k(1,2) by (simp add: add.commute)
  next
    fix n assume "n \<in> {n. a \<le> n \<and> n \<le> e \<and> (\<forall>p\<in>set ps. \<not> p dvd n)}"
    then have n: "a \<le> n" "n \<le> e" "\<forall>p\<in>set ps. \<not> p dvd n" by simp_all
    define k where "k = nat (n - a)"
    have k: "k < nat (e - a + 1)" "a + int k = n" using n(1,2) by (simp_all add: k_def)
    then have "t ! k" using t(2) n(3) by simp
    then have "int k + a \<in> (\<lambda>i. int i + a) ` {k. k < nat (e - a + 1) \<and> t ! k}"
      using k(1) by (intro imageI) simp
    then show "n \<in> (\<lambda>i. int i + a) ` {k. k < nat (e - a + 1) \<and> t ! k}"
      using k(2) by (simp add: add.commute)
  qed
  finally show ?thesis .
qed

lemma fold_union:
  "fold (\<lambda>x acc. acc \<union> F x) xs B = B \<union> (\<Union>x\<in>set xs. F x)"
  by (induction xs arbitrary: B) auto

lemma segments_cover:
  fixes a limit size :: int
  assumes "0 < size"
  shows "(\<Union>s\<in>set (range_list a (limit + 1) size).
            {n. s \<le> n \<and> n \<le> min (s + size - 1) limit \<and> Q n}) =
         {n. a \<le> n \<and> n \<le> limit \<and> Q n}"
proof (intro set_eqI iffI)
  fix n
  assume "n \<in> (\<Union>s\<in>set (range_list a (limit + 1) size).
            {n. s \<le> n \<and> n \<le> min (s + size - 1) limit \<and> Q n})"
  then obtain s where "a \<le> s" "s \<le> n" "n \<le> limit" "Q n"
    unfolding set_range_list [OF assms] by auto
  then show "n \<in> {n. a \<le> n \<and> n \<le> limit \<and> Q n}" by simp
next
  fix n assume "n \<in> {n. a \<le> n \<and> n \<le> limit \<and> Q n}"
  then have n: "a \<le> n" "n \<le> limit" "Q n" by simp_all
  define s where "s = n - (n - a) mod size"
  have m: "0 \<le> (n - a) mod size" "(n - a) mod size < size" using assms by simp_all
  have "(n - a) mod size \<le> n - a" using n(1) assms by (simp add: zmod_le_nonneg_dividend)
  then have "a \<le> s" by (simp add: s_def)
  moreover have "s \<le> n" using m(1) by (simp add: s_def)
  moreover have "(s - a) mod size = 0"
  proof -
    have "s - a = (n - a) - (n - a) mod size" by (simp add: s_def)
    then have "s - a = (n - a) div size * size" by (simp add: minus_mod_eq_div_mult)
    then show ?thesis by simp
  qed
  moreover have "n \<le> s + size - 1" using m(2) by (simp add: s_def)
  ultimately have "s \<in> set (range_list a (limit + 1) size)"
    "n \<in> {n. s \<le> n \<and> n \<le> min (s + size - 1) limit \<and> Q n}"
    unfolding set_range_list [OF assms] using n by simp_all
  then show "n \<in> (\<Union>s\<in>set (range_list a (limit + 1) size).
            {n. s \<le> n \<and> n \<le> min (s + size - 1) limit \<and> Q n})"
    by blast
qed

lemma prime_divisor:
  assumes "2 \<le> d"
  shows "\<exists>p. prime_number p \<and> p dvd d"
  using assms
proof (induction "nat d" arbitrary: d rule: less_induct)
  case less
  show ?case
  proof (cases "prime_number d")
    case True
    then show ?thesis by auto
  next
    case False
    then obtain e where e: "e \<in> {2..<d}" "e dvd d"
      using less.prems unfolding prime_number_def by blast
    then have "nat e < nat d" "2 \<le> e" by simp_all
    then obtain p where "prime_number p" "p dvd e" using less.hyps by blast
    then show ?thesis using e(2) dvd_trans by blast
  qed
qed

lemma sieved_by_base_primes:
  assumes "int (isqrt (nat limit)) < n" and "n \<le> limit" and "1 \<le> limit"
  shows "(\<forall>p\<in>{p. p \<le> int (isqrt (nat limit)) \<and> prime_number p}. \<not> p dvd n) = prime_number n"
proof
  assume p: "prime_number n"
  show "\<forall>p\<in>{p. p \<le> int (isqrt (nat limit)) \<and> prime_number p}. \<not> p dvd n"
  proof
    fix q assume "q \<in> {p. p \<le> int (isqrt (nat limit)) \<and> prime_number p}"
    then have "q \<in> {2..<n}" using assms(1) by (simp add: prime_number_def)
    then show "\<not> q dvd n" using p unfolding prime_number_def by blast
  qed
next
  assume a: "\<forall>p\<in>{p. p \<le> int (isqrt (nat limit)) \<and> prime_number p}. \<not> p dvd n"
  have "1 * 1 \<le> nat limit" using assms(3) by simp
  then have "1 \<le> isqrt (nat limit)" by (rule le_isqrt)
  then have n2: "2 \<le> n" using assms(1) by simp
  have "trial_division n"
    unfolding trial_division_def
  proof (intro conjI ballI impI)
    fix d assume d: "d \<in> {2..n}" and dd: "d * d \<le> n"
    show "\<not> d dvd n"
    proof
      assume dvd: "d dvd n"
      have d2: "2 \<le> d" using d by simp
      then obtain p where p: "prime_number p" "p dvd d" using prime_divisor by blast
      have p2: "2 \<le> p" using p(1) by (simp add: prime_number_def)
      have "p \<le> d" using p(2) d2 by (intro zdvd_imp_le) simp_all
      then have "p * p \<le> d * d" using p2 by (intro mult_mono) simp_all
      then have "p * p \<le> limit" using dd assms(2) by linarith
      then have "p \<le> int (isqrt (nat limit))"
        using p2 assms(3) le_int_isqrt [of p limit] by simp
      then have "\<not> p dvd n" using a p(1) by simp
      moreover have "p dvd n" using p(2) dvd by (rule dvd_trans)
      ultimately show False by contradiction
    qed
  qed (rule n2)
  then show "prime_number n" by (simp only: trial_division_prime_number)
qed

lemma finite_primes_upto: "finite {n. n \<le> limit \<and> prime_number n}"
proof -
  have "{n. n \<le> limit \<and> prime_number n} \<subseteq> {2..limit}"
    by (auto simp: prime_number_def)
  then show ?thesis by (rule finite_subset) simp
qed

lemma segmented_result:
  assumes "0 \<le> limit" and "1 \<le> segment_size"
  shows "generate_known_primes_segmented limit segment_size =
           Inr {n. n \<le> limit \<and> prime_number n}"
proof -
  define r where "r = int (isqrt (nat limit))"
  define base where "base = {n. n \<le> r \<and> prime_number n}"
  have r0: "0 \<le> r" by (simp add: r_def)
  have rl: "r \<le> limit" using isqrt_le_self [of "nat limit"] assms(1) unfolding r_def by linarith
  have std: "generate_known_primes_standard r = Inr base"
    unfolding base_def using r0 by (rule standard_result)
  have fin: "finite base" unfolding base_def by (rule finite_primes_upto)
  have bs: "set (sorted_list_of_set base) = base" using fin by simp
  have "\<forall>p\<in>base. 0 < p" unfolding base_def by (auto simp: prime_number_def)
  then have pos: "\<forall>p\<in>set (sorted_list_of_set base). 0 < p" by (simp only: bs)
  have size: "0 < segment_size" "segment_size \<noteq> 0" using assms(2) by simp_all
  have "generate_known_primes_segmented limit segment_size =
      Inr (base \<union> (\<Union>s\<in>set (range_list (r + 1) (limit + 1) segment_size).
              segment_primes (sorted_list_of_set base) s (min (s + segment_size - 1) limit)))"
    using assms(1) size(2) std
    by (simp add: generate_known_primes_segmented_def Let_def r_def [symmetric] py_range_def
        fold_union)
  also have "(\<Union>s\<in>set (range_list (r + 1) (limit + 1) segment_size).
              segment_primes (sorted_list_of_set base) s (min (s + segment_size - 1) limit)) =
        {n. r + 1 \<le> n \<and> n \<le> limit \<and> (\<forall>p\<in>base. \<not> p dvd n)}"
    unfolding segment_primes_result [OF pos] bs by (rule segments_cover [OF size(1)])
  also have "base \<union> {n. r + 1 \<le> n \<and> n \<le> limit \<and> (\<forall>p\<in>base. \<not> p dvd n)} =
        {n. n \<le> limit \<and> prime_number n}"
  proof (cases "1 \<le> limit")
    case False
    then have "limit = 0" using assms(1) by simp
    moreover have "r = 0" using rl r0 calculation by simp
    ultimately show ?thesis unfolding base_def by (auto simp: prime_number_def)
  next
    case True
    have key: "(\<forall>p\<in>base. \<not> p dvd n) = prime_number n" if "r + 1 \<le> n" "n \<le> limit" for n
      unfolding base_def r_def
      by (rule sieved_by_base_primes) (use that True in \<open>simp_all add: r_def\<close>)
    show ?thesis
    proof (intro set_eqI iffI)
      fix n assume "n \<in> base \<union> {n. r + 1 \<le> n \<and> n \<le> limit \<and> (\<forall>p\<in>base. \<not> p dvd n)}"
      then consider "n \<le> r" "prime_number n"
        | "r + 1 \<le> n" "n \<le> limit" "\<forall>p\<in>base. \<not> p dvd n"
        unfolding base_def by blast
      then show "n \<in> {n. n \<le> limit \<and> prime_number n}"
      proof cases
        case 1
        then show ?thesis using rl by simp
      next
        case 2
        then show ?thesis using key [of n] by simp
      qed
    next
      fix n assume "n \<in> {n. n \<le> limit \<and> prime_number n}"
      then have n: "n \<le> limit" "prime_number n" by simp_all
      show "n \<in> base \<union> {n. r + 1 \<le> n \<and> n \<le> limit \<and> (\<forall>p\<in>base. \<not> p dvd n)}"
      proof (cases "n \<le> r")
        case True
        then show ?thesis using n(2) by (simp add: base_def)
      next
        case False
        then have "r + 1 \<le> n" by simp
        then show ?thesis using key [of n] n by simp
      qed
    qed
  qed
  finally show ?thesis .
qed

lemma sieves_agree_from_two:
  assumes "2 \<le> limit" and "1 \<le> segment_size"
  shows "generate_known_primes_standard limit = Inr {n. n \<le> limit \<and> prime_number n}"
    and "generate_known_primes_bit_sieve limit = Inr {n. n \<le> limit \<and> prime_number n}"
    and "generate_known_primes_segmented limit segment_size = Inr {n. n \<le> limit \<and> prime_number n}"
  using assms by (simp_all add: standard_result bit_sieve_result segmented_result)

section \<open>The three sieves below 2\<close>

text \<open>
  From 2 on the three strategies return the same set, the primes up to the limit
  (\<open>sieves_agree_from_two\<close>). Below 2 they do not.
\<close>

text \<open>
  C6 fails on the code for the bit-packed strategy: below 2 it returns \<open>{2}\<close>, because
  2 is put into the result before the limit is looked at. The standard and the segmented
  strategy return the empty set there.
\<close>

theorem bit_sieve_below_two:
  "generate_known_primes_bit_sieve 0 = Inr {2} \<and>
   generate_known_primes_bit_sieve 1 = Inr {2} \<and>
   generate_known_primes_standard 0 = Inr {} \<and>
   generate_known_primes_standard 1 = Inr {} \<and>
   generate_known_primes_segmented 0 10000000 = Inr {} \<and>
   generate_known_primes_segmented 1 10000000 = Inr {}"
  by code_simp

text \<open>
  C2 fails on the code at the same place: for the limit 1 the standard and the segmented
  sieve agree on the empty set and the bit-packed sieve returns \<open>{2}\<close>.
\<close>

theorem sieves_disagree_at_one:
  "generate_known_primes_standard 1 \<noteq> generate_known_primes_bit_sieve 1 \<and>
   generate_known_primes_segmented 1 10000000 \<noteq> generate_known_primes_bit_sieve 1 \<and>
   generate_known_primes_standard 1 = generate_known_primes_segmented 1 10000000"
  by code_simp

section \<open>Further properties of the checkpoint store\<close>

text \<open>
  Every checkpoint the validator writes holds counters that are not negative, and the
  files of two different limits have different names, so a save for one limit leaves the
  checkpoint of another as it was.
\<close>

lemma process_batch_checkpoint:
  assumes "0 \<le> true_positives (fst state) \<and> 0 \<le> false_positives (fst state) \<and>
           0 \<le> false_negatives (fst state)"
  shows "\<exists>c. load_checkpoint (output_dir self) limit
              (snd (process_batch self classify now limit known_primes True batch_size
                      batch_start state)) = Some c \<and>
             0 \<le> true_positives c \<and> 0 \<le> false_positives c \<and> 0 \<le> false_negatives c"
  using fold_update_counters_nonneg [OF assms]
  by (simp add: process_batch_def Let_def load_checkpoint_def save_checkpoint_def)


lemma str_nat_value:
  "foldl (\<lambda>a c. 10 * a + (of_char c - of_char CHR ''0'')) 0 (str_nat n) = n"
proof (induction n rule: str_nat.induct)
  case (1 n)
  show ?case
  proof (cases "n < 10")
    case True
    then show ?thesis by (subst str_nat.simps) simp
  next
    case False
    have "n mod 10 < 10" by simp
    then have "of_char (char_of (of_char CHR ''0'' + n mod 10) :: char) - of_char CHR ''0'' = n mod 10"
      by simp
    then show ?thesis
      using False 1 by (subst str_nat.simps) simp
  qed
qed

lemma str_nat_inj: "str_nat m = str_nat n \<Longrightarrow> m = n"
  by (metis str_nat_value)

lemma digit_char_not_minus:
  fixes d :: nat
  assumes "d < 10"
  shows "char_of (of_char CHR ''0'' + d) \<noteq> CHR ''-''"
proof
  assume "char_of (of_char CHR ''0'' + d) = CHR ''-''"
  then have "of_char (char_of (of_char CHR ''0'' + d) :: char) = (of_char CHR ''-'' :: nat)"
    by (rule arg_cong)
  moreover have "of_char (char_of (of_char CHR ''0'' + d) :: char) = (48 + d :: nat)"
    using assms by simp
  moreover have "of_char CHR ''-'' = (45 :: nat)" by simp
  ultimately have "48 + d = (45 :: nat)" by simp
  then show False by simp
qed

lemma str_nat_no_minus: "str_nat n \<noteq> CHR ''-'' # cs"
proof (induction n arbitrary: cs rule: str_nat.induct)
  case (1 n)
  show ?case
  proof (cases "n < 10")
    case True
    then show ?thesis
      using digit_char_not_minus [of n] by (subst str_nat.simps) simp
  next
    case False
    have d: "char_of (of_char CHR ''0'' + n mod 10) \<noteq> CHR ''-''"
      by (rule digit_char_not_minus) simp
    have ih: "str_nat (n div 10) \<noteq> CHR ''-'' # ds" for ds using False 1 by simp
    have "str_nat (n div 10) @ [char_of (of_char CHR ''0'' + n mod 10)] \<noteq> CHR ''-'' # cs"
    proof (cases "str_nat (n div 10)")
      case Nil
      then show ?thesis using d by simp
    next
      case (Cons c ds)
      then have "c \<noteq> CHR ''-''" using ih [of ds] by simp
      then show ?thesis using Cons by simp
    qed
    then show ?thesis using False by (subst str_nat.simps) simp
  qed
qed

lemma str_int_inj: "str_int i = str_int j \<Longrightarrow> i = j"
proof -
  assume eq: "str_int i = str_int j"
  consider "i < 0" "j < 0" | "i < 0" "0 \<le> j" | "0 \<le> i" "j < 0" | "0 \<le> i" "0 \<le> j"
    by linarith
  then show "i = j"
  proof cases
    case 1
    then have "nat (- i) = nat (- j)" using eq by (simp add: str_int_def str_nat_inj)
    then show ?thesis using 1 by simp
  next
    case 2
    then show ?thesis
      using eq str_nat_no_minus [of "nat j" "str_nat (nat (- i))"] by (simp add: str_int_def)
  next
    case 3
    then show ?thesis
      using eq str_nat_no_minus [of "nat i" "str_nat (nat (- j))"] by (simp add: str_int_def)
  next
    case 4
    then have "nat i = nat j" using eq by (simp add: str_int_def str_nat_inj)
    then show ?thesis using 4 by simp
  qed
qed

lemma checkpoint_file_inj:
  "checkpoint_file dir limit = checkpoint_file dir limit' \<Longrightarrow> limit = limit'"
  by (auto simp: checkpoint_file_def path_join_def dest: str_int_inj split: if_splits)

lemma checkpoints_do_not_collide:
  assumes "limit' \<noteq> limit"
  shows "load_checkpoint dir limit (save_checkpoint dir c limit' fs) = load_checkpoint dir limit fs"
proof -
  have "checkpoint_file dir limit \<noteq> checkpoint_file dir limit'"
    using assms checkpoint_file_inj by blast
  then show ?thesis by (simp add: load_checkpoint_def save_checkpoint_def)
qed

section \<open>The segmented sieve on the windows of the specification's scenario\<close>

lemma segmented_scenario:
  "generate_known_primes_segmented 30 7 = Inr {2, 3, 5, 7, 11, 13, 17, 19, 23, 29}"
  by code_simp

end
